theory Spec2Isabelle
  imports Complex_Main
begin

unbundle bit_operations_syntax

section \<open>Parallel join-order search: data model\<close>

text \<open>
  The development follows \<^verbatim>\<open>src/backend/optimizer/parallel/parallel_worker.c\<close>,
  \<^verbatim>\<open>src/backend/optimizer/parallel/parallel_eval.c\<close> and the orchestrator
  \<^verbatim>\<open>parallel_join_search\<close> of \<^verbatim>\<open>src/backend/optimizer/path/allpaths.c\<close>, which also holds
  a second copy of the partitioner, the generator, the splitters and the worker with the
  same statements. The planner state \<^verbatim>\<open>root\<close> of the source is called \<open>proot\<close> here.

  Table ordinals, loop counters, worker counts and partition ids are C \<^verbatim>\<open>int\<close>s that the
  code only ever produces non-negative; they are natural numbers here. Subset bitmaps are
  C \<^verbatim>\<open>int\<close>s combined with \<^verbatim>\<open>|\<close>, \<^verbatim>\<open>& ~\<close> and \<^verbatim>\<open>-\<close>; they are integers here, and a
  shift \<^verbatim>\<open>1 << n\<close> whose result a 32-bit \<^verbatim>\<open>int\<close> cannot hold (\<open>n \<ge> 31\<close>) is a fault of the
  model, written out where the code shifts by a table ordinal or by \<^verbatim>\<open>levels_needed\<close>.

  A \<^verbatim>\<open>RelOptInfo\<close> is reduced to the two attributes the search reads: the set of base
  relations it covers and the total cost of its cheapest path, a \<^verbatim>\<open>double\<close> that is taken
  to be finite and is a real number here.
\<close>

record RelOptInfo =
  relids :: "nat set"
  total_cost :: real

text \<open>
  Behaviour the C standard leaves undefined is a value of the model: reading through a
  null pointer, indexing an array outside its bounds, shifting past the width of
  \<^verbatim>\<open>int\<close>, and using a variable that was never assigned. None of them is an error the
  code reports: the functions below return \<open>Inl\<close> of a fault exactly where the C program
  has no defined behaviour. A null dereference names the pointer that was read:
  a table entry handed to \<^verbatim>\<open>make_join_rel\<close>, the result of \<^verbatim>\<open>make_join_rel\<close>, the
  table entry of the full set, or the head cell of an empty list.
\<close>

datatype null_pointer = SplitEntry | JoinResult | FullSetEntry | ListHead

datatype fault =
    NullPointerDereference null_pointer
  | IndexOutOfBounds
  | IntegerOverflow
  | UninitializedRead

text \<open>
  The planner functions the search calls are not part of the search and are parameters:
  \<^verbatim>\<open>make_join_rel\<close> (\<open>None\<close> is its \<^verbatim>\<open>NULL\<close>, an illegal join), the path generation that
  ends in \<^verbatim>\<open>set_cheapest\<close> (\<^verbatim>\<open>generate_partitionwise_join_paths\<close>, then
  \<^verbatim>\<open>generate_gather_paths\<close> when the flag is set, then \<^verbatim>\<open>set_cheapest\<close>), and the two
  predicates \<^verbatim>\<open>desirable_join\<close> consults. They are functions of their relation arguments;
  the planner state they keep in \<^verbatim>\<open>PlannerInfo\<close> is not modelled.
\<close>

record planner =
  make_join_rel :: "RelOptInfo \<Rightarrow> RelOptInfo \<Rightarrow> RelOptInfo option"
  cheapest_paths :: "bool \<Rightarrow> RelOptInfo \<Rightarrow> RelOptInfo"
  have_relevant_joinclause :: "RelOptInfo \<Rightarrow> RelOptInfo \<Rightarrow> bool"
  have_join_order_restriction :: "RelOptInfo \<Rightarrow> RelOptInfo \<Rightarrow> bool"

section \<open>Constraint partitioner\<close>

text \<open>
  \<^verbatim>\<open>part_constraints\<close>: one pair per bit \<open>i\<close> with \<open>1 << i < n_workers\<close>; bit \<open>i\<close> of
  \<^verbatim>\<open>part_id\<close> orients the pair of tables \<open>2i\<close>, \<open>2i+1\<close>. The pair \<open>(a, b)\<close> says that
  table \<open>a\<close> is joined before table \<open>b\<close>. \<^verbatim>\<open>levels_needed\<close> is not read. Up to
  \<open>2 ^ 30\<close> workers no shift of the loop leaves the range of \<^verbatim>\<open>int\<close>.
\<close>

function part_constraints_from :: "nat \<Rightarrow> nat \<Rightarrow> nat \<Rightarrow> (nat \<times> nat) list" where
  "part_constraints_from i part_id n_workers =
     (if push_bit i 1 < n_workers
      then (let select = part_id AND push_bit i 1
            in (if select > 0 then (2 * i + 1, 2 * i) else (2 * i, 2 * i + 1)))
           # part_constraints_from (i + 1) part_id n_workers
      else [])"
  by pat_completeness auto
termination
  by (relation "measure (\<lambda>(i, part_id, n_workers). n_workers - i)")
     (auto simp: push_bit_eq_mult intro!: diff_less_mono2 intro: less_trans [OF less_exp])

definition part_constraints :: "nat \<Rightarrow> nat \<Rightarrow> nat \<Rightarrow> (nat \<times> nat) list" where
  "part_constraints levels_needed part_id n_workers = part_constraints_from 0 part_id n_workers"

section \<open>Admissible-set generator\<close>

text \<open>
  \<^verbatim>\<open>constrained_power_set\<close>: the loop clears \<^verbatim>\<open>include_q1\<close> when some constraint has \<open>q1\<close>
  as its second component, and otherwise \<^verbatim>\<open>include_q2\<close> when it has \<open>q2\<close> there.
\<close>

fun cps_flags :: "(nat \<times> nat) list \<Rightarrow> nat \<Rightarrow> nat \<Rightarrow> bool \<times> bool \<Rightarrow> bool \<times> bool" where
  "cps_flags [] q1 q2 (include_q1, include_q2) = (include_q1, include_q2)"
| "cps_flags (ci # constr) q1 q2 (include_q1, include_q2) =
     (if snd ci = q1 then cps_flags constr q1 q2 (False, include_q2)
      else if snd ci = q2 then cps_flags constr q1 q2 (include_q1, False)
      else cps_flags constr q1 q2 (include_q1, include_q2))"

definition constrained_power_set :: "(nat \<times> nat) list \<Rightarrow> nat \<Rightarrow> nat \<Rightarrow> nat list list" where
  "constrained_power_set constr q1 q2 =
     (case cps_flags constr q1 q2 (True, True) of (include_q1, include_q2) \<Rightarrow>
        (if include_q1 then [[q1]] else []) @ (if include_q2 then [[q2]] else []) @ [[q1, q2]])"

text \<open>
  \<^verbatim>\<open>cartesian_product\<close> (allpaths.c): an empty argument returns the other one; otherwise
  the copies of \<open>a\<close>, the copies of \<open>b\<close>, and for every \<open>b\<^sub>i\<close> in turn the concatenations
  \<open>b\<^sub>i @ a\<^sub>j\<close> for every \<open>a\<^sub>j\<close>.
\<close>

definition copy_concat_int :: "nat list \<Rightarrow> nat list \<Rightarrow> nat list" where
  "copy_concat_int a b = a @ b"

definition cartesian_product :: "nat list list \<Rightarrow> nat list list \<Rightarrow> nat list list" where
  "cartesian_product a b =
     (if a = [] then b
      else if b = [] then a
      else a @ b @ concat (map (\<lambda>bi. map (\<lambda>aj. copy_concat_int bi aj) a) b))"

function adm_join_results_from :: "nat \<Rightarrow> nat \<Rightarrow> (nat \<times> nat) list \<Rightarrow> nat list list \<Rightarrow> nat list list" where
  "adm_join_results_from i levels_needed constr join_res =
     (if 2 * i + 1 < levels_needed
      then adm_join_results_from (i + 1) levels_needed constr
             (cartesian_product join_res (constrained_power_set constr (2 * i) (2 * i + 1)))
      else join_res)"
  by pat_completeness auto
termination
  by (relation "measure (\<lambda>(i, levels_needed, constr, join_res). levels_needed - 2 * i)") auto

definition adm_join_results :: "nat \<Rightarrow> (nat \<times> nat) list \<Rightarrow> nat list list" where
  "adm_join_results levels_needed constr = adm_join_results_from 0 levels_needed constr []"

section \<open>Splitter\<close>

text \<open>
  The DP table \<^verbatim>\<open>P\<close> is an array of \<open>2 ^ levels_needed\<close> pointers indexed by bitmap;
  \<open>None\<close> is \<^verbatim>\<open>NULL\<close>. Every index the splitters compute is the bitmap of table ordinals
  that have already been checked against \<^verbatim>\<open>levels_needed\<close>, so it lies inside the array.
\<close>

type_synonym dp_table = "int \<Rightarrow> RelOptInfo option"

text \<open>
  The first loop over \<^verbatim>\<open>sub_rels\<close>: \<^verbatim>\<open>bitmap |= (1 << num); present[num] = true\<close>.
  \<^verbatim>\<open>present\<close> has \<^verbatim>\<open>levels_needed\<close> cells.
\<close>

fun mark_present :: "nat \<Rightarrow> nat list \<Rightarrow> int \<times> (nat \<Rightarrow> bool) \<Rightarrow> fault + int \<times> (nat \<Rightarrow> bool)" where
  "mark_present n [] (bitmap, present) = Inr (bitmap, present)"
| "mark_present n (num # sub_rels) (bitmap, present) =
     (if num \<ge> 31 then Inl IntegerOverflow
      else if num \<ge> n then Inl IndexOutOfBounds
      else mark_present n sub_rels (bitmap OR push_bit num 1, present(num := True)))"

text \<open>
  The scan of the constraints in \<^verbatim>\<open>try_splits\<close>:
  \<^verbatim>\<open>if(present[q1] && present[q2]) valid[q1] = false\<close>, where \<open>q1\<close> is the first and \<open>q2\<close>
  the second component of the constraint. \<^verbatim>\<open>&&\<close> reads \<^verbatim>\<open>present[q2]\<close> only when
  \<^verbatim>\<open>present[q1]\<close> holds.
\<close>

fun mark_invalid :: "nat \<Rightarrow> (nat \<times> nat) list \<Rightarrow> (nat \<Rightarrow> bool) \<Rightarrow> (nat \<Rightarrow> bool) \<Rightarrow> fault + (nat \<Rightarrow> bool)" where
  "mark_invalid n [] present valid = Inr valid"
| "mark_invalid n ((q1, q2) # constr) present valid =
     (if q1 \<ge> n then Inl IndexOutOfBounds
      else if present q1
      then (if q2 \<ge> n then Inl IndexOutOfBounds
            else if present q2 then mark_invalid n constr present (valid(q1 := False))
            else mark_invalid n constr present valid)
      else mark_invalid n constr present valid)"

text \<open>
  The call of \<^verbatim>\<open>make_join_rel\<close> on two table entries and the path generation on its
  result. \<^verbatim>\<open>make_join_rel\<close> reads the \<^verbatim>\<open>relids\<close> of both arguments, so a \<^verbatim>\<open>NULL\<close>
  entry is a null dereference. \<open>gather\<close> is the test
  \<^verbatim>\<open>list_length(sub_rels) != levels_needed\<close>.
\<close>

definition join_candidate ::
  "planner \<Rightarrow> bool \<Rightarrow> RelOptInfo option \<Rightarrow> RelOptInfo option \<Rightarrow> fault + RelOptInfo option" where
  "join_candidate proot gather l_splt r_splt =
     (case l_splt of None \<Rightarrow> Inl (NullPointerDereference SplitEntry)
      | Some l \<Rightarrow>
        (case r_splt of None \<Rightarrow> Inl (NullPointerDereference SplitEntry)
         | Some r \<Rightarrow>
           (case make_join_rel proot l r of None \<Rightarrow> Inr None
            | Some join_rel \<Rightarrow> Inr (Some (cheapest_paths proot gather join_rel)))))"

text \<open>
  The update of the table, the same text in \<^verbatim>\<open>try_splits\<close> and \<^verbatim>\<open>try_splits_b\<close>:
  \<^verbatim>\<open>
  if(P[bitmap] == NULL){
      P[bitmap] = join_rel;
  }else if(P[bitmap]->cheapest_total_path->total_cost > join_rel->cheapest_total_path->total_cost){
      P[bitmap] = join_rel;
  }
  \<close>
  The second branch reads through \<^verbatim>\<open>join_rel\<close> whatever \<^verbatim>\<open>make_join_rel\<close> returned.
\<close>

definition record_best :: "dp_table \<Rightarrow> int \<Rightarrow> RelOptInfo option \<Rightarrow> fault + dp_table" where
  "record_best P bitmap join_rel =
     (case P bitmap of None \<Rightarrow> Inr (P(bitmap := join_rel))
      | Some recorded \<Rightarrow>
        (case join_rel of None \<Rightarrow> Inl (NullPointerDereference JoinResult)
         | Some candidate \<Rightarrow>
           if total_cost recorded > total_cost candidate
           then Inr (P(bitmap := Some candidate)) else Inr P))"

text \<open>
  The last loop of \<^verbatim>\<open>try_splits\<close>: every \<open>u\<close> of \<^verbatim>\<open>sub_rels\<close> with \<^verbatim>\<open>valid[u]\<close> is tried
  as the right-hand side against the rest.
\<close>

fun split_loop ::
  "planner \<Rightarrow> bool \<Rightarrow> (nat \<Rightarrow> bool) \<Rightarrow> int \<Rightarrow> nat list \<Rightarrow> dp_table \<Rightarrow> fault + dp_table" where
  "split_loop proot gather valid bitmap [] P = Inr P"
| "split_loop proot gather valid bitmap (u # us) P =
     (if valid u
      then (let l_bitmp = bitmap AND NOT (push_bit u 1)
            in case join_candidate proot gather (P l_bitmp) (P (push_bit u 1)) of
                 Inl f \<Rightarrow> Inl f
               | Inr join_rel \<Rightarrow>
                 (case record_best P bitmap join_rel of
                    Inl f \<Rightarrow> Inl f
                  | Inr P' \<Rightarrow> split_loop proot gather valid bitmap us P'))
      else split_loop proot gather valid bitmap us P)"

definition try_splits ::
  "planner \<Rightarrow> nat list \<Rightarrow> (nat \<times> nat) list \<Rightarrow> dp_table \<Rightarrow> nat \<Rightarrow> fault + dp_table" where
  "try_splits proot sub_rels constr P levels_needed =
     (case mark_present levels_needed sub_rels (0, \<lambda>i. False) of
        Inl f \<Rightarrow> Inl f
      | Inr (bitmap, present) \<Rightarrow>
        (case mark_invalid levels_needed constr present (\<lambda>i. True) of
           Inl f \<Rightarrow> Inl f
         | Inr valid \<Rightarrow>
           split_loop proot (length sub_rels \<noteq> levels_needed) valid bitmap sub_rels P))"

text \<open>
  \<^verbatim>\<open>try_splits_b\<close> builds, group of three by group of three, the candidate left-hand
  sides from the tables present in \<^verbatim>\<open>sub_rels\<close>. For a group that has a constraint
  (\<^verbatim>\<open>i < list_length(constr)\<close>) the three ordinals are those of the constraint:
\<close>

definition spower_constrained :: "bool \<Rightarrow> bool \<Rightarrow> bool \<Rightarrow> nat \<Rightarrow> nat \<Rightarrow> nat \<Rightarrow> nat list list" where
  "spower_constrained q1pres q2pres q3pres q1 q2 q3 =
     (if q3pres
      then [[q3]] @
           (if q2pres
            then [[q2]] @ (if q1pres then [[q1, q2], [q1, q3], [q1, q2, q3]] else [])
            else (if q1pres then [[q1], [q1, q3]] else []))
      else (if q2pres
            then [[q2]] @ (if q1pres then [[q1, q2], [q1]] else [])
            else (if q1pres then [[q1]] else [])))"

text \<open>and for a group beyond the constraints they are \<open>3i\<close>, \<open>3i+1\<close>, \<open>3i+2\<close>:\<close>

definition spower_free :: "bool \<Rightarrow> bool \<Rightarrow> bool \<Rightarrow> nat \<Rightarrow> nat \<Rightarrow> nat \<Rightarrow> nat list list" where
  "spower_free q1pres q2pres q3pres q1 q2 q3 =
     (if q3pres
      then [[q3]] @
           (if q2pres
            then [[q2], [q2, q3]] @
                 (if q1pres then [[q1], [q1, q2], [q1, q3], [q1, q2, q3]] else [])
            else (if q1pres then [[q1], [q1, q3]] else []))
      else (if q2pres
            then [[q2]] @ (if q1pres then [[q1, q2], [q1]] else [])
            else (if q1pres then [[q1]] else [])))"

function left_sides ::
  "nat \<Rightarrow> nat \<Rightarrow> (nat \<times> nat \<times> nat) list \<Rightarrow> (nat \<Rightarrow> bool) \<Rightarrow> nat list list \<Rightarrow> fault + nat list list" where
  "left_sides i n constr present A =
     (if 3 * i + 2 < n
      then (if i < length constr
            then (case constr ! i of (q1, q2, q3) \<Rightarrow>
                    if q1 \<ge> n \<or> q2 \<ge> n \<or> q3 \<ge> n then Inl IndexOutOfBounds
                    else left_sides (i + 1) n constr present
                           (cartesian_product A
                              (spower_constrained (present q1) (present q2) (present q3) q1 q2 q3)))
            else left_sides (i + 1) n constr present
                   (cartesian_product A
                      (spower_free (present (3 * i)) (present (3 * i + 1)) (present (3 * i + 2))
                         (3 * i) (3 * i + 1) (3 * i + 2))))
      else Inr A)"
  by pat_completeness auto
termination
  by (relation "measure (\<lambda>(i, n, constr, present, A). n - 3 * i)") auto

text \<open>The inner loop \<^verbatim>\<open>bitmapl |= (1 << num)\<close> over one candidate.\<close>

fun bitmap_of :: "nat list \<Rightarrow> int \<Rightarrow> int" where
  "bitmap_of [] bitmapl = bitmapl"
| "bitmap_of (num # L) bitmapl = bitmap_of L (bitmapl OR push_bit num 1)"

fun split_loop_b ::
  "planner \<Rightarrow> bool \<Rightarrow> int \<Rightarrow> nat list list \<Rightarrow> dp_table \<Rightarrow> fault + dp_table" where
  "split_loop_b proot gather bitmap [] P = Inr P"
| "split_loop_b proot gather bitmap (L # A) P =
     (let bitmapl = bitmap_of L 0
      in if bitmapl = 0 \<or> bitmapl = bitmap then split_loop_b proot gather bitmap A P
         else (let bitmapr = bitmap - bitmapl
               in case join_candidate proot gather (P bitmapl) (P bitmapr) of
                    Inl f \<Rightarrow> Inl f
                  | Inr join_rel \<Rightarrow>
                    (case record_best P bitmap join_rel of
                       Inl f \<Rightarrow> Inl f
                     | Inr P' \<Rightarrow> split_loop_b proot gather bitmap A P')))"

definition try_splits_b ::
  "planner \<Rightarrow> nat list \<Rightarrow> (nat \<times> nat \<times> nat) list \<Rightarrow> dp_table \<Rightarrow> nat \<Rightarrow> fault + dp_table" where
  "try_splits_b proot sub_rels constr P n =
     (case mark_present n sub_rels (0, \<lambda>i. False) of
        Inl f \<Rightarrow> Inl f
      | Inr (bitmap, present) \<Rightarrow>
        (case left_sides 0 n constr present [] of
           Inl f \<Rightarrow> Inl f
         | Inr A \<Rightarrow> split_loop_b proot (length sub_rels \<noteq> n) bitmap A P))"

section \<open>Bushy partitioner and generator\<close>

function part_constraints_b_from :: "nat \<Rightarrow> nat \<Rightarrow> nat \<Rightarrow> (nat \<times> nat \<times> nat) list" where
  "part_constraints_b_from i part_id n_workers =
     (if push_bit i 1 < n_workers
      then (let select = part_id AND push_bit i 1
            in (if select > 0 then (3 * i + 1, 3 * i, 3 * i + 2)
                else (3 * i, 3 * i + 1, 3 * i + 2)))
           # part_constraints_b_from (i + 1) part_id n_workers
      else [])"
  by pat_completeness auto
termination
  by (relation "measure (\<lambda>(i, part_id, n_workers). n_workers - i)")
     (auto simp: push_bit_eq_mult intro!: diff_less_mono2 intro: less_trans [OF less_exp])

definition part_constraints_b :: "nat \<Rightarrow> nat \<Rightarrow> nat \<Rightarrow> (nat \<times> nat \<times> nat) list" where
  "part_constraints_b levels_needed part_id n_workers = part_constraints_b_from 0 part_id n_workers"

fun cps_flags_b :: "(nat \<times> nat \<times> nat) list \<Rightarrow> nat \<Rightarrow> nat \<Rightarrow> bool \<times> bool \<Rightarrow> bool \<times> bool" where
  "cps_flags_b [] q1 q2 (include_q1q3, include_q2q3) = (include_q1q3, include_q2q3)"
| "cps_flags_b (ci # constr) q1 q2 (include_q1q3, include_q2q3) =
     (if fst (snd ci) = q1 then cps_flags_b constr q1 q2 (False, include_q2q3)
      else if fst (snd ci) = q2 then cps_flags_b constr q1 q2 (include_q1q3, False)
      else cps_flags_b constr q1 q2 (include_q1q3, include_q2q3))"

definition constrained_power_set_b :: "(nat \<times> nat \<times> nat) list \<Rightarrow> nat \<Rightarrow> nat \<Rightarrow> nat \<Rightarrow> nat list list" where
  "constrained_power_set_b constr q1 q2 q3 =
     (case cps_flags_b constr q1 q2 (True, True) of (include_q1q3, include_q2q3) \<Rightarrow>
        [[q1], [q2], [q3], [q1, q2]]
        @ (if include_q1q3 then [[q1, q3]] else [])
        @ (if include_q2q3 then [[q2, q3]] else [])
        @ [[q1, q2, q3]])"

function adm_join_results_b_from ::
  "nat \<Rightarrow> nat \<Rightarrow> (nat \<times> nat \<times> nat) list \<Rightarrow> nat list list \<Rightarrow> nat list list" where
  "adm_join_results_b_from i levels_needed constr join_res =
     (if 3 * i + 2 < levels_needed
      then adm_join_results_b_from (i + 1) levels_needed constr
             (cartesian_product join_res
                (constrained_power_set_b constr (3 * i) (3 * i + 1) (3 * i + 2)))
      else join_res)"
  by pat_completeness auto
termination
  by (relation "measure (\<lambda>(i, levels_needed, constr, join_res). levels_needed - 3 * i)") auto

definition adm_join_results_b :: "nat \<Rightarrow> (nat \<times> nat \<times> nat) list \<Rightarrow> nat list list" where
  "adm_join_results_b levels_needed constr = adm_join_results_b_from 0 levels_needed constr []"

section \<open>Worker\<close>

text \<open>
  The table is allocated with \<^verbatim>\<open>1 << levels_needed\<close> cells, all \<^verbatim>\<open>NULL\<close>, and the
  singletons are seeded with \<^verbatim>\<open>P[1 << i] = list_nth(initial_rels, i)\<close>. The allocation
  itself is taken to succeed.
\<close>

function seed_singletons :: "nat \<Rightarrow> nat \<Rightarrow> RelOptInfo list \<Rightarrow> dp_table \<Rightarrow> fault + dp_table" where
  "seed_singletons i levels_needed initial_rels P =
     (if i < levels_needed
      then (if i \<ge> length initial_rels then Inl IndexOutOfBounds
            else seed_singletons (i + 1) levels_needed initial_rels
                   (P(push_bit i 1 := Some (initial_rels ! i))))
      else Inr P)"
  by pat_completeness auto
termination
  by (relation "measure (\<lambda>(i, levels_needed, initial_rels, P). levels_needed - i)") auto

definition init_table :: "nat \<Rightarrow> RelOptInfo list \<Rightarrow> fault + dp_table" where
  "init_table levels_needed initial_rels =
     (if levels_needed \<ge> 31 then Inl IntegerOverflow
      else seed_singletons 0 levels_needed initial_rels (\<lambda>i. None))"

text \<open>
  The loop over the sorted admissible sets calls the splitter on every set with more than
  one element. \<^verbatim>\<open>list_qsort\<close> with \<^verbatim>\<open>ptr_less\<close> orders the sets by length; the order
  it leaves among sets of one length is not fixed by \<^verbatim>\<open>qsort\<close>, and the model keeps
  their order of generation.
\<close>

fun split_all ::
  "(nat list \<Rightarrow> dp_table \<Rightarrow> fault + dp_table) \<Rightarrow> nat list list \<Rightarrow> dp_table \<Rightarrow> fault + dp_table" where
  "split_all splitter [] P = Inr P"
| "split_all splitter (q # join_res) P =
     (if length q > 1
      then (case splitter q P of Inl f \<Rightarrow> Inl f | Inr P' \<Rightarrow> split_all splitter join_res P')
      else split_all splitter join_res P)"

text \<open>
  \<^verbatim>\<open>*best = *(P[(1 << levels_needed) - 1])\<close> copies the entry of the full set without a
  test; the worker has no other exit.
\<close>

definition copy_best :: "nat \<Rightarrow> dp_table \<Rightarrow> fault + RelOptInfo" where
  "copy_best levels_needed P =
     (case P (push_bit levels_needed 1 - 1) of
        None \<Rightarrow> Inl (NullPointerDereference FullSetEntry)
      | Some best \<Rightarrow> Inr best)"

text \<open>
  With a \<^verbatim>\<open>p_type\<close> other than 2 and 3 the worker prints a message and goes on with
  \<^verbatim>\<open>constr\<close> and \<^verbatim>\<open>join_res\<close> unassigned: it allocates and seeds the table and then
  hands \<^verbatim>\<open>join_res\<close> to \<^verbatim>\<open>list_qsort\<close>.
\<close>

definition worker ::
  "planner \<Rightarrow> RelOptInfo list \<Rightarrow> nat \<Rightarrow> nat \<Rightarrow> nat \<Rightarrow> nat \<Rightarrow> fault + RelOptInfo" where
  "worker proot initial_rels levels_needed part_id n_workers p_type =
     (if p_type = 2
      then (let constr = part_constraints levels_needed part_id n_workers;
                join_res = adm_join_results levels_needed constr
            in case init_table levels_needed initial_rels of
                 Inl f \<Rightarrow> Inl f
               | Inr P \<Rightarrow>
                 (case split_all (\<lambda>q P. try_splits proot q constr P levels_needed)
                         (sort_key length join_res) P of
                    Inl f \<Rightarrow> Inl f
                  | Inr P' \<Rightarrow> copy_best levels_needed P'))
      else if p_type = 3
      then (let constr = part_constraints_b levels_needed part_id n_workers;
                join_res = adm_join_results_b levels_needed constr
            in case init_table levels_needed initial_rels of
                 Inl f \<Rightarrow> Inl f
               | Inr P \<Rightarrow>
                 (case split_all (\<lambda>q P. try_splits_b proot q constr P levels_needed)
                         (sort_key length join_res) P of
                    Inl f \<Rightarrow> Inl f
                  | Inr P' \<Rightarrow> copy_best levels_needed P'))
      else (case init_table levels_needed initial_rels of
              Inl f \<Rightarrow> Inl f
            | Inr P \<Rightarrow> Inl UninitializedRead))"

section \<open>Worker orchestrator\<close>

text \<open>
  \<^verbatim>\<open>parallel_join_search\<close> starts one worker per partition id; the mutex of the workers
  serialises them. \<^verbatim>\<open>items\<close> is allocated with \<^verbatim>\<open>levels_needed\<close> cells and written at
  every index below \<^verbatim>\<open>n_workers\<close>. A worker that faults takes the process with it.
\<close>

fun run_workers ::
  "planner \<Rightarrow> RelOptInfo list \<Rightarrow> nat \<Rightarrow> nat \<Rightarrow> nat \<Rightarrow> nat list \<Rightarrow> fault + RelOptInfo list" where
  "run_workers proot initial_rels levels_needed n_workers p_type [] = Inr []"
| "run_workers proot initial_rels levels_needed n_workers p_type (i # ids) =
     (case worker proot initial_rels levels_needed i n_workers p_type of
        Inl f \<Rightarrow> Inl f
      | Inr r \<Rightarrow>
        (case run_workers proot initial_rels levels_needed n_workers p_type ids of
           Inl f \<Rightarrow> Inl f
         | Inr rs \<Rightarrow> Inr (r # rs)))"

text \<open>
  The loop that joins the threads 1, 2, \<dots>:
  \<^verbatim>\<open>
  Path *that_path = that->optimal->cheapest_total_path;
  Path *best_path = best->optimal->cheapest_total_path;
  if(that_path->total_cost < best_path->total_cost){
      optimal = that->optimal;
      *root = *(that->root);
  }
  \<close>
  \<^verbatim>\<open>best\<close> is the output of thread 0 and is not assigned in the loop.
\<close>

fun adopt_results :: "RelOptInfo \<Rightarrow> RelOptInfo list \<Rightarrow> RelOptInfo \<Rightarrow> RelOptInfo" where
  "adopt_results best [] optimal = optimal"
| "adopt_results best (that # outputs) optimal =
     adopt_results best outputs (if total_cost that < total_cost best then that else optimal)"

definition parallel_join_search ::
  "planner \<Rightarrow> nat \<Rightarrow> RelOptInfo list \<Rightarrow> nat \<Rightarrow> nat \<Rightarrow> fault + RelOptInfo" where
  "parallel_join_search proot levels_needed initial_rels n_workers p_type =
     (if n_workers > levels_needed then Inl IndexOutOfBounds
      else (case run_workers proot initial_rels levels_needed n_workers p_type [0..<n_workers] of
              Inl f \<Rightarrow> Inl f
            | Inr [] \<Rightarrow> Inl UninitializedRead
            | Inr (best # outputs) \<Rightarrow> Inr (adopt_results best outputs best)))"

section \<open>Clump assembler\<close>

text \<open>
  Modelled from the spec: the guide tree \<^verbatim>\<open>BinaryTree\<close> is declared in
  \<^verbatim>\<open>optimizer/parallel_tree.h\<close>, which is not among the sources; the spec gives it as a
  tagged tree \<open>Leaf | Internal{left, right}\<close>. \<^verbatim>\<open>try_merge_clump\<close> reads \<^verbatim>\<open>bt->relids\<close>
  (a list of table ordinals), \<^verbatim>\<open>bt->left\<close> and \<^verbatim>\<open>bt->right\<close>, and tests \<^verbatim>\<open>is_leaf(bt)\<close>.
\<close>

datatype BinaryTree =
    Leaf (bt_relids: "nat list")
  | Internal (bt_relids: "nat list") (left: BinaryTree) (right: BinaryTree)

definition bms_num_members :: "nat set \<Rightarrow> nat" where
  "bms_num_members a = card a"

definition desirable_join :: "planner \<Rightarrow> RelOptInfo \<Rightarrow> RelOptInfo \<Rightarrow> bool" where
  "desirable_join proot outer_rel inner_rel =
     (have_relevant_joinclause proot outer_rel inner_rel
      \<or> have_join_order_restriction proot outer_rel inner_rel)"

text \<open>
  \<^verbatim>\<open>try_merge_clump\<close>. At a leaf, \<^verbatim>\<open>linitial_int\<close> reads the head cell of \<^verbatim>\<open>bt->relids\<close>
  and \<^verbatim>\<open>list_nth\<close> indexes \<^verbatim>\<open>initial_rels\<close>. At an inner node with two lists of at most
  one element, \<^verbatim>\<open>linitial\<close> reads the head cell of each.
\<close>

fun try_merge_clump ::
  "planner \<Rightarrow> nat \<Rightarrow> RelOptInfo list \<Rightarrow> BinaryTree \<Rightarrow> fault + RelOptInfo list" where
  "try_merge_clump proot levels_needed initial_rels (Leaf ids) =
     (case ids of
        [] \<Rightarrow> Inl (NullPointerDereference ListHead)
      | relid # _ \<Rightarrow>
        if relid \<ge> length initial_rels then Inl IndexOutOfBounds
        else Inr [initial_rels ! relid])"
| "try_merge_clump proot levels_needed initial_rels (Internal ids l r) =
     (case try_merge_clump proot levels_needed initial_rels l of
        Inl f \<Rightarrow> Inl f
      | Inr list1 \<Rightarrow>
        (case try_merge_clump proot levels_needed initial_rels r of
           Inl f \<Rightarrow> Inl f
         | Inr list2 \<Rightarrow>
           if length list1 > 1 \<or> length list2 > 1 then Inr (list1 @ list2)
           else (case list1 of
                   [] \<Rightarrow> Inl (NullPointerDereference ListHead)
                 | rel1 # _ \<Rightarrow>
                   (case list2 of
                      [] \<Rightarrow> Inl (NullPointerDereference ListHead)
                    | rel2 # _ \<Rightarrow>
                      if desirable_join proot rel1 rel2
                      then (case make_join_rel proot rel1 rel2 of
                              Some joinrel \<Rightarrow>
                                Inr [cheapest_paths proot (length ids < levels_needed) joinrel]
                            | None \<Rightarrow> Inr (list1 @ list2))
                      else Inr (list1 @ list2)))))"

text \<open>
  \<^verbatim>\<open>force_merge_clump\<close>, the scan: the first clump of the list that \<^verbatim>\<open>make_join_rel\<close>
  joins with \<open>rel\<close> is deleted from the list, and the join is returned with the rest.
\<close>

fun merge_target ::
  "planner \<Rightarrow> RelOptInfo \<Rightarrow> RelOptInfo list \<Rightarrow> (RelOptInfo \<times> RelOptInfo list) option" where
  "merge_target proot rel [] = None"
| "merge_target proot rel (old_rel # frelList) =
     (case make_join_rel proot old_rel rel of
        Some joinrel \<Rightarrow> Some (joinrel, frelList)
      | None \<Rightarrow>
        (case merge_target proot rel frelList of
           None \<Rightarrow> None
         | Some (joinrel, rest) \<Rightarrow> Some (joinrel, old_rel # rest)))"

text \<open>
  \<^verbatim>\<open>force_merge_clump\<close>, the insertion: at the end when the list is empty or the clump
  has one member, at the front when it is larger than the first clump, and otherwise
  after the cell \<^verbatim>\<open>lc\<close> at which the \<^verbatim>\<open>for (;;)\<close> loop stops: the last cell, or the one
  before the first clump that is smaller than \<open>rel\<close>.
\<close>

fun insert_after_cell :: "nat \<Rightarrow> RelOptInfo \<Rightarrow> RelOptInfo list \<Rightarrow> RelOptInfo list" where
  "insert_after_cell rel_size rel [] = [rel]"
| "insert_after_cell rel_size rel [lc] = [lc, rel]"
| "insert_after_cell rel_size rel (lc # nxt # frelList) =
     (if rel_size > bms_num_members (relids nxt) then lc # rel # nxt # frelList
      else lc # insert_after_cell rel_size rel (nxt # frelList))"

definition insert_clump :: "RelOptInfo list \<Rightarrow> RelOptInfo \<Rightarrow> RelOptInfo list" where
  "insert_clump frelList rel =
     (let rel_size = bms_num_members (relids rel)
      in if frelList = [] \<or> rel_size = 1 then frelList @ [rel]
         else if rel_size > bms_num_members (relids (hd frelList)) then rel # frelList
         else insert_after_cell rel_size rel frelList)"

function force_merge_clump ::
  "planner \<Rightarrow> nat \<Rightarrow> RelOptInfo list \<Rightarrow> RelOptInfo \<Rightarrow> RelOptInfo list" where
  "force_merge_clump proot levels_needed frelList rel =
     (case merge_target proot rel frelList of
        Some (joinrel, rest) \<Rightarrow>
          force_merge_clump proot levels_needed rest
            (cheapest_paths proot (bms_num_members (relids joinrel) < levels_needed) joinrel)
      | None \<Rightarrow> insert_clump frelList rel)"
  by pat_completeness auto
termination
proof (relation "measure (\<lambda>(proot, levels_needed, frelList, rel). length frelList)", goal_cases)
  case 1
  show ?case by simp
next
  case (2 proot levels_needed frelList rel found joinrel rest)
  have "merge_target proot rel frelList = Some (j, r) \<Longrightarrow> length r < length frelList" for j r
    by (induction frelList arbitrary: j r) (auto split: option.splits)
  with 2 show ?case by auto
qed

text \<open>
  \<^verbatim>\<open>construct_rel_based_on_plan\<close>: the walk, then the force-merge of the clumps one by
  one into a list that starts empty, then the test
  \<^verbatim>\<open>if (list_length(relList) != 1) return NULL\<close>. \<open>clumps_after_merging\<close> is the value of
  \<^verbatim>\<open>relList\<close> at that test.
\<close>

definition clumps_after_merging ::
  "planner \<Rightarrow> nat \<Rightarrow> RelOptInfo list \<Rightarrow> BinaryTree \<Rightarrow> fault + RelOptInfo list" where
  "clumps_after_merging proot levels_needed initial_rels bt =
     (case try_merge_clump proot levels_needed initial_rels bt of
        Inl f \<Rightarrow> Inl f
      | Inr relList \<Rightarrow>
        if length relList > 1
        then Inr (foldl (force_merge_clump proot levels_needed) [] relList)
        else Inr relList)"

definition construct_rel_based_on_plan ::
  "planner \<Rightarrow> nat \<Rightarrow> RelOptInfo list \<Rightarrow> BinaryTree \<Rightarrow> fault + RelOptInfo option" where
  "construct_rel_based_on_plan proot levels_needed initial_rels bt =
     (case clumps_after_merging proot levels_needed initial_rels bt of
        Inl f \<Rightarrow> Inl f
      | Inr relList \<Rightarrow>
        if length relList \<noteq> 1 then Inr None else Inr (Some (hd relList)))"

section \<open>Sequences of splitter invocations\<close>

text \<open>
  A worker calls one of the two splitters again and again on one table. A call is the
  splitter with the arguments it gets besides the planner state and the table:
  \<^verbatim>\<open>sub_rels\<close>, \<^verbatim>\<open>constr\<close> and \<^verbatim>\<open>levels_needed\<close>. \<open>run_splitters\<close> performs a list of calls in
  order and stops at the first fault.
\<close>

datatype splitter_call =
    LeftDeep "nat list" "(nat \<times> nat) list" nat
  | Bushy "nat list" "(nat \<times> nat \<times> nat) list" nat

fun invoke :: "planner \<Rightarrow> splitter_call \<Rightarrow> dp_table \<Rightarrow> fault + dp_table" where
  "invoke proot (LeftDeep sub_rels constr levels_needed) P =
     try_splits proot sub_rels constr P levels_needed"
| "invoke proot (Bushy sub_rels constr n) P = try_splits_b proot sub_rels constr P n"

fun run_splitters :: "planner \<Rightarrow> splitter_call list \<Rightarrow> dp_table \<Rightarrow> fault + dp_table" where
  "run_splitters proot [] P = Inr P"
| "run_splitters proot (c # calls) P =
     (case invoke proot c P of Inl f \<Rightarrow> Inl f | Inr P' \<Rightarrow> run_splitters proot calls P')"

text \<open>
  The ordinals for which the body of the last loop of \<^verbatim>\<open>try_splits\<close> runs: those \<open>u\<close> of
  \<^verbatim>\<open>sub_rels\<close>, in order, that pass the test \<^verbatim>\<open>if(valid[u])\<close>.
\<close>

definition right_hand_sides :: "nat \<Rightarrow> nat list \<Rightarrow> (nat \<times> nat) list \<Rightarrow> fault + nat list" where
  "right_hand_sides levels_needed sub_rels constr =
     (case mark_present levels_needed sub_rels (0, \<lambda>i. False) of
        Inl f \<Rightarrow> Inl f
      | Inr (bitmap, present) \<Rightarrow>
        (case mark_invalid levels_needed constr present (\<lambda>i. True) of
           Inl f \<Rightarrow> Inl f
         | Inr valid \<Rightarrow> Inr (filter valid sub_rels)))"

text \<open>
  The rule for a right-hand element in the words of the specification, for comparison:
  \<open>u\<close> is valid iff no constraint requires some other member of \<open>S\<close> to precede \<open>u\<close>,
  that is, no constraint \<open>(before, u)\<close> has its \<open>before\<close> in \<open>S\<close> and different from \<open>u\<close>.
\<close>

definition spec_valid_right_hand :: "(nat \<times> nat) list \<Rightarrow> nat list \<Rightarrow> nat \<Rightarrow> bool" where
  "spec_valid_right_hand constr S u =
     (\<not> list_ex (\<lambda>c. snd c = u \<and> fst c \<noteq> u \<and> fst c \<in> set S) constr)"

text \<open>
  The equations of the loops are unfolded by hand in the proofs below; evaluation uses
  them as code equations.
\<close>

declare part_constraints_from.simps [simp del]
declare part_constraints_b_from.simps [simp del]
declare adm_join_results_from.simps [simp del]
declare adm_join_results_b_from.simps [simp del]
declare left_sides.simps [simp del]
declare seed_singletons.simps [simp del]
declare force_merge_clump.simps [simp del]

section \<open>The subsets of tables a worker generates\<close>

text \<open>
  The admissible sets as sets of tables: \<open>generated_sets\<close> forgets the order in which
  \<^verbatim>\<open>adm_join_results\<close> lists the ordinals of a set and the order of the sets.
\<close>

definition generated_sets :: "nat \<Rightarrow> (nat \<times> nat) list \<Rightarrow> nat set set" where
  "generated_sets levels_needed constr = set ` set (adm_join_results levels_needed constr)"

text \<open>
  What the generator does with the pair of tables \<open>2j\<close>, \<open>2j+1\<close>: a set that has just
  one table of the pair is left out when some constraint names that table as its second
  component. \<open>pairwise_closed constr m\<close> are the non-empty sets of tables below \<open>2m\<close> that
  pass this test for every pair \<open>j < m\<close>.
\<close>

definition pair_allowed :: "(nat \<times> nat) list \<Rightarrow> nat \<Rightarrow> nat set \<Rightarrow> bool" where
  "pair_allowed constr j S \<longleftrightarrow>
     \<not> (2 * j \<in> S \<and> 2 * j + 1 \<notin> S \<and> 2 * j \<in> snd ` set constr)
     \<and> \<not> (2 * j + 1 \<in> S \<and> 2 * j \<notin> S \<and> 2 * j + 1 \<in> snd ` set constr)"

definition pairwise_closed :: "(nat \<times> nat) list \<Rightarrow> nat \<Rightarrow> nat set set" where
  "pairwise_closed constr m =
     {S. S \<noteq> {} \<and> S \<subseteq> {0..<2 * m} \<and> (\<forall>j<m. pair_allowed constr j S)}"

section \<open>The left-deep join orders a worker explores\<close>

text \<open>
  A left-deep join order is the list of the tables in the order in which they are joined:
  the first table is the left side of the first join, and every later table \<open>u\<close> is
  joined, as the right side, onto the join of the tables \<open>joined\<close> before it. A worker with
  the constraints \<open>constr\<close> tries that join when its loop reaches an admissible set \<open>q\<close>
  of more than one element that consists of the tables of \<open>joined\<close> and \<open>u\<close>, and
  \<^verbatim>\<open>try_splits\<close> on \<open>q\<close> takes \<open>u\<close> as a right-hand element.
\<close>

definition split_tried :: "nat \<Rightarrow> (nat \<times> nat) list \<Rightarrow> nat list \<Rightarrow> nat \<Rightarrow> bool" where
  "split_tried levels_needed constr joined u =
     list_ex (\<lambda>q. 1 < length q \<and> set q = set joined \<union> {u}
                  \<and> (case right_hand_sides levels_needed q constr of
                        Inl f \<Rightarrow> False
                      | Inr us \<Rightarrow> u \<in> set us))
       (adm_join_results levels_needed constr)"

text \<open>A worker explores a join order when it tries every join of the order.\<close>

fun order_explored :: "nat \<Rightarrow> (nat \<times> nat) list \<Rightarrow> nat list \<Rightarrow> nat list \<Rightarrow> bool" where
  "order_explored levels_needed constr joined [] = True"
| "order_explored levels_needed constr joined (u # rest) =
     ((joined = [] \<or> split_tried levels_needed constr joined u)
      \<and> order_explored levels_needed constr (joined @ [u]) rest)"

text \<open>
  The workers of \<^verbatim>\<open>parallel_join_search\<close> have the partition ids \<open>0, \<dots>, n_workers - 1\<close>
  and the constraints \<^verbatim>\<open>part_constraints\<close> derives from them.
\<close>

definition explored_by_some_worker :: "nat \<Rightarrow> nat \<Rightarrow> nat list \<Rightarrow> bool" where
  "explored_by_some_worker levels_needed n_workers order =
     list_ex (\<lambda>part_id.
         order_explored levels_needed (part_constraints levels_needed part_id n_workers) [] order)
       [0..<n_workers]"

section \<open>Planners used as concrete inputs\<close>

text \<open>A base relation of cost 0 for table \<open>i\<close>.\<close>

definition base_rel :: "nat \<Rightarrow> RelOptInfo" where
  "base_rel i = \<lparr>relids = {i}, total_cost = 0\<rparr>"

text \<open>
  A planner that joins every pair and charges for the order of the joins: 5 when table 1
  is joined onto a left side that already has table 0, and 1 when table 2 is joined onto
  a left side that already has table 3.
\<close>

definition order_penalty :: "RelOptInfo \<Rightarrow> RelOptInfo \<Rightarrow> real" where
  "order_penalty l r =
     (if relids r = {1} \<and> 0 \<in> relids l then 5 else 0)
     + (if relids r = {2} \<and> 3 \<in> relids l then 1 else 0)"

definition order_planner :: planner where
  "order_planner =
     \<lparr>make_join_rel = (\<lambda>l r. Some \<lparr>relids = relids l \<union> relids r,
                                      total_cost = total_cost l + total_cost r + order_penalty l r\<rparr>),
      cheapest_paths = (\<lambda>gather rel. rel),
      have_relevant_joinclause = (\<lambda>a b. True),
      have_join_order_restriction = (\<lambda>a b. False)\<rparr>"

text \<open>A planner for which no join is legal.\<close>

definition no_join_planner :: planner where
  "no_join_planner =
     \<lparr>make_join_rel = (\<lambda>l r. None),
      cheapest_paths = (\<lambda>gather rel. rel),
      have_relevant_joinclause = (\<lambda>a b. True),
      have_join_order_restriction = (\<lambda>a b. False)\<rparr>"

text \<open>
  A planner for which tables 0 and 2 together cannot be joined with table 1 alone, in
  either orientation; every other join is legal and costs 1.
\<close>

definition restricted_planner :: planner where
  "restricted_planner =
     \<lparr>make_join_rel = (\<lambda>l r.
        if (relids l = {0, 2} \<and> relids r = {1}) \<or> (relids l = {1} \<and> relids r = {0, 2}) then None
        else Some \<lparr>relids = relids l \<union> relids r, total_cost = total_cost l + total_cost r + 1\<rparr>),
      cheapest_paths = (\<lambda>gather rel. rel),
      have_relevant_joinclause = (\<lambda>a b. True),
      have_join_order_restriction = (\<lambda>a b. False)\<rparr>"

text \<open>
  A table for two tables in which the entry of the pair is already recorded with cost 10.
\<close>

definition recorded_pair_table :: dp_table where
  "recorded_pair_table =
     (\<lambda>i. None)(1 := Some (base_rel 0), 2 := Some (base_rel 1),
                3 := Some \<lparr>relids = {0, 1}, total_cost = 10\<rparr>)"

text \<open>A relation of cost 0 that covers the two tables \<open>i\<close> and \<open>j\<close>.\<close>

definition pair_rel :: "nat \<Rightarrow> nat \<Rightarrow> RelOptInfo" where
  "pair_rel i j = \<lparr>relids = {i, j}, total_cost = 0\<rparr>"

section \<open>Worker orchestrator: which result is adopted\<close>

text \<open>
  C1. The claim: when every worker returns a result, \<^verbatim>\<open>parallel_join_search\<close> returns the
  result of minimum total cost, the first such on ties. The loop compares every later
  result with the result of worker 0 and never with the result it has adopted so far.
  With four workers on four tables and the planner \<open>order_planner\<close> the workers return
  costs 5, 0, 6 and 1; the search returns the result of worker 3, of cost 1, and not the
  result of worker 1, of cost 0.
\<close>

theorem parallel_join_search_adopts_last_cheaper_than_first:
  "map (\<lambda>part_id. map_sum id total_cost
          (worker order_planner [base_rel 0, base_rel 1, base_rel 2, base_rel 3] 4 part_id 4 2))
       [0, 1, 2, 3]
     = [Inr 5, Inr 0, Inr 6, Inr 1]
   \<and> map_sum id total_cost
       (parallel_join_search order_planner 4 [base_rel 0, base_rel 1, base_rel 2, base_rel 3] 4 2)
     = Inr 1"
  by code_simp

text \<open>
  In general the loop returns the last output that is cheaper than the output of worker
  0, and the output of worker 0 when there is none.
\<close>

lemma adopt_results_last_below_first:
  "adopt_results best outputs optimal
     = (case filter (\<lambda>that. total_cost that < total_cost best) outputs of
          [] \<Rightarrow> optimal
        | that # cheaper \<Rightarrow> last (that # cheaper))"
proof (induction outputs arbitrary: optimal)
  case Nil
  show ?case by simp
next
  case (Cons that outputs)
  show ?case
    by (cases "filter (\<lambda>that. total_cost that < total_cost best) outputs")
      (simp_all add: Cons.IH)
qed

section \<open>Worker: the entry of the full set\<close>

text \<open>
  C3. The claim: when the table has no entry for the full set after all splits, the
  worker reports a failure to its caller. The worker copies \<^verbatim>\<open>*(P[(1 << levels_needed) - 1])\<close>
  without a test. With two tables and a planner that joins nothing, the entry at index 3
  stays \<^verbatim>\<open>NULL\<close> and the worker, and with it the search, reads through the null pointer.
\<close>

theorem worker_missing_full_entry_null_dereference:
  "worker no_join_planner [base_rel 0, base_rel 1] 2 0 1 2
     = Inl (NullPointerDereference FullSetEntry)
   \<and> parallel_join_search no_join_planner 2 [base_rel 0, base_rel 1] 1 2
     = Inl (NullPointerDereference FullSetEntry)"
  by code_simp

section \<open>Splitter: a failed join against a recorded entry\<close>

text \<open>
  C8. The claim: the comparison against a recorded entry is only reached with a non-null
  join result. Both splitters guard the path generation with \<^verbatim>\<open>if(join_rel)\<close> and then
  read \<^verbatim>\<open>join_rel->cheapest_total_path\<close> in the \<^verbatim>\<open>else if\<close> without a guard. With
  \<open>restricted_planner\<close> on four tables, the set \<open>{2, 0, 1}\<close> gets its entry from the split
  with table 2 on the right, the split with table 1 on the right fails, and the
  comparison reads through the null pointer; the bushy splitter does the same on six
  tables.
\<close>

theorem try_splits_failed_join_null_dereference:
  "worker restricted_planner [base_rel 0, base_rel 1, base_rel 2, base_rel 3] 4 0 1 2
     = Inl (NullPointerDereference JoinResult)
   \<and> worker restricted_planner
       [base_rel 0, base_rel 1, base_rel 2, base_rel 3, base_rel 4, base_rel 5] 6 0 1 3
     = Inl (NullPointerDereference JoinResult)"
  by code_simp

text \<open>
  The step at which both runs stop: a recorded entry and a failed join.
\<close>

lemma record_best_failed_join:
  "P bitmap = Some recorded \<Longrightarrow> record_best P bitmap None = Inl (NullPointerDereference JoinResult)"
  by (simp add: record_best_def)

section \<open>Worker: more tables than the bitmap holds\<close>

text \<open>
  C7. The claim: with more than 32 tables the search returns a \<open>TooManyRelations\<close>
  error before any work. Neither \<^verbatim>\<open>parallel_join_search\<close> nor \<^verbatim>\<open>worker\<close> compares
  \<^verbatim>\<open>levels_needed\<close> with a bound. The worker derives the constraints and the admissible
  sets and then evaluates \<^verbatim>\<open>1 << levels_needed\<close> for the size of the table, which a
  32-bit \<^verbatim>\<open>int\<close> cannot hold from \<open>levels_needed = 31\<close> on: every search on more than
  32 tables, whatever the plan type, ends in that overflow.
\<close>

theorem parallel_join_search_too_many_relations_overflow:
  assumes "levels_needed > 32" and "0 < n_workers" and "n_workers \<le> levels_needed"
  shows "parallel_join_search proot levels_needed initial_rels n_workers p_type
           = Inl IntegerOverflow"
proof -
  have w: "worker proot initial_rels levels_needed 0 n_workers p_type = Inl IntegerOverflow"
    using assms(1) by (simp add: worker_def init_table_def Let_def)
  from assms(2) have "[0..<n_workers] = 0 # [1..<n_workers]"
    by (simp add: upt_conv_Cons)
  with w assms(3) show ?thesis
    by (simp add: parallel_join_search_def)
qed

theorem parallel_join_search_too_many_relations_overflow_witness:
  "(33::nat) > 32 \<and> (0::nat) < 1 \<and> (1::nat) \<le> 33
   \<and> parallel_join_search order_planner 33 (map base_rel [0..<33]) 1 2 = Inl IntegerOverflow"
  using parallel_join_search_too_many_relations_overflow
          [of 33 1 order_planner "map base_rel [0..<33]" 2]
  by simp

section \<open>Splitter: keep-the-minimum\<close>

lemma record_best_keeps_minimum:
  assumes "record_best P bitmap join_rel = Inr P'" and "P B = Some recorded"
  shows "\<exists>r'. P' B = Some r' \<and> (r' = recorded \<or> total_cost r' < total_cost recorded)"
  using assms by (auto simp: record_best_def split: option.splits if_splits)

lemma split_loop_keeps_minimum:
  assumes "split_loop proot gather valid bitmap us P = Inr P'" and "P B = Some recorded"
  shows "\<exists>r'. P' B = Some r' \<and> (r' = recorded \<or> total_cost r' < total_cost recorded)"
  using assms
proof (induction us arbitrary: P recorded)
  case Nil
  then show ?case by simp
next
  case (Cons u us)
  show ?case
  proof (cases "valid u")
    case False
    with Cons show ?thesis by simp
  next
    case True
    with Cons.prems(1) obtain join_rel P1 where
      rb: "record_best P bitmap join_rel = Inr P1" and
      rest: "split_loop proot gather valid bitmap us P1 = Inr P'"
      by (auto simp: Let_def split: sum.splits)
    from record_best_keeps_minimum [OF rb Cons.prems(2)] obtain r1 where
      r1: "P1 B = Some r1" "r1 = recorded \<or> total_cost r1 < total_cost recorded" by blast
    from Cons.IH [OF rest r1(1)] obtain r' where
      "P' B = Some r'" "r' = r1 \<or> total_cost r' < total_cost r1" by blast
    with r1 show ?thesis by auto
  qed
qed

lemma split_loop_b_keeps_minimum:
  assumes "split_loop_b proot gather bitmap A P = Inr P'" and "P B = Some recorded"
  shows "\<exists>r'. P' B = Some r' \<and> (r' = recorded \<or> total_cost r' < total_cost recorded)"
  using assms
proof (induction A arbitrary: P recorded)
  case Nil
  then show ?case by simp
next
  case (Cons L A)
  show ?case
  proof (cases "bitmap_of L 0 = 0 \<or> bitmap_of L 0 = bitmap")
    case True
    with Cons show ?thesis by (simp add: Let_def)
  next
    case False
    with Cons.prems(1) obtain join_rel P1 where
      rb: "record_best P bitmap join_rel = Inr P1" and
      rest: "split_loop_b proot gather bitmap A P1 = Inr P'"
      by (auto simp: Let_def split: sum.splits)
    from record_best_keeps_minimum [OF rb Cons.prems(2)] obtain r1 where
      r1: "P1 B = Some r1" "r1 = recorded \<or> total_cost r1 < total_cost recorded" by blast
    from Cons.IH [OF rest r1(1)] obtain r' where
      "P' B = Some r'" "r' = r1 \<or> total_cost r' < total_cost r1" by blast
    with r1 show ?thesis by auto
  qed
qed

lemma invoke_keeps_minimum:
  assumes "invoke proot c P = Inr P'" and "P B = Some recorded"
  shows "\<exists>r'. P' B = Some r' \<and> (r' = recorded \<or> total_cost r' < total_cost recorded)"
proof (cases c)
  case (LeftDeep sub_rels constr n)
  with assms(1) obtain gather valid bitmap where
    "split_loop proot gather valid bitmap sub_rels P = Inr P'"
    by (auto simp: try_splits_def split: sum.splits prod.splits)
  from split_loop_keeps_minimum [OF this assms(2)] show ?thesis .
next
  case (Bushy sub_rels constr n)
  with assms(1) obtain gather bitmap A where
    "split_loop_b proot gather bitmap A P = Inr P'"
    by (auto simp: try_splits_b_def split: sum.splits prod.splits)
  from split_loop_b_keeps_minimum [OF this assms(2)] show ?thesis .
qed

text \<open>
  C4. For every bitmap \<open>B\<close> and every sequence of invocations of \<^verbatim>\<open>try_splits\<close> and
  \<^verbatim>\<open>try_splits_b\<close> that runs to its end: an entry recorded at \<open>P[B]\<close> before the sequence
  is, after it, either the same entry or one of strictly lower total cost. An entry is
  only replaced by a strictly cheaper candidate, so the recorded cost never increases.
\<close>

theorem dp_entry_cost_never_increases:
  assumes "run_splitters proot calls P = Inr P'" and "P B = Some recorded"
  shows "\<exists>r'. P' B = Some r' \<and> (r' = recorded \<or> total_cost r' < total_cost recorded)"
  using assms
proof (induction calls arbitrary: P recorded)
  case Nil
  then show ?case by simp
next
  case (Cons c calls)
  from Cons.prems(1) obtain P1 where
    c: "invoke proot c P = Inr P1" and rest: "run_splitters proot calls P1 = Inr P'"
    by (auto split: sum.splits)
  from invoke_keeps_minimum [OF c Cons.prems(2)] obtain r1 where
    r1: "P1 B = Some r1" "r1 = recorded \<or> total_cost r1 < total_cost recorded" by blast
  from Cons.IH [OF rest r1(1)] obtain r' where
    "P' B = Some r'" "r' = r1 \<or> total_cost r' < total_cost r1" by blast
  with r1 show ?case by auto
qed

theorem dp_entry_cost_never_increases_witness:
  "recorded_pair_table 3 = Some \<lparr>relids = {0, 1}, total_cost = 10\<rparr>
   \<and> \<not> isl (run_splitters order_planner [LeftDeep [0, 1] [] 2, Bushy [0, 1] [] 3]
                recorded_pair_table)
   \<and> map_option total_cost
         (projr (run_splitters order_planner [LeftDeep [0, 1] [] 2, Bushy [0, 1] [] 3]
                   recorded_pair_table) 3)
       = Some 0
   \<and> (\<exists>r'. projr (run_splitters order_planner [LeftDeep [0, 1] [] 2, Bushy [0, 1] [] 3]
                    recorded_pair_table) 3
              = Some r'
            \<and> (r' = \<lparr>relids = {0, 1}, total_cost = 10\<rparr>
                 \<or> total_cost r' < total_cost \<lparr>relids = {0, 1}, total_cost = 10\<rparr>))"
proof -
  let ?run = "run_splitters order_planner [LeftDeep [0, 1] [] 2, Bushy [0, 1] [] 3]
                recorded_pair_table"
  have recorded: "recorded_pair_table 3 = Some \<lparr>relids = {0, 1}, total_cost = 10\<rparr>"
    by (simp add: recorded_pair_table_def)
  have completes: "\<not> isl ?run"
    by code_simp
  have cost: "map_option total_cost (projr ?run 3) = Some 0"
    by code_simp
  from completes have "?run = Inr (projr ?run)"
    by (cases ?run) simp_all
  from dp_entry_cost_never_increases [OF this recorded] recorded completes cost
  show ?thesis by blast
qed

section \<open>Left-deep splitter: which elements go to the right\<close>

lemma bit_single: "bit (push_bit m (1::int)) n \<longleftrightarrow> n = m"
  by (simp add: bit_exp_iff)

lemma bit_bitmap_of: "bit (bitmap_of L b) n \<longleftrightarrow> bit b n \<or> n \<in> set L"
proof (induction L arbitrary: b)
  case Nil
  show ?case by simp
next
  case (Cons num L)
  have "bit (bitmap_of (num # L) b) n \<longleftrightarrow> bit (b OR push_bit num 1) n \<or> n \<in> set L"
    by (simp only: bitmap_of.simps Cons.IH)
  also have "\<dots> \<longleftrightarrow> bit b n \<or> n \<in> set (num # L)"
    by (simp only: bit_or_iff bit_single set_simps insert_iff) blast
  finally show ?case .
qed

lemma mark_present_in_range:
  assumes "\<forall>num \<in> set sub_rels. num < n \<and> num < 31"
  shows "mark_present n sub_rels (b, pr) = Inr (bitmap_of sub_rels b, \<lambda>i. pr i \<or> i \<in> set sub_rels)"
  using assms
proof (induction sub_rels arbitrary: b pr)
  case Nil
  then show ?case by simp
next
  case (Cons num sub_rels)
  have "(\<lambda>i. (pr(num := True)) i \<or> i \<in> set sub_rels) = (\<lambda>i. pr i \<or> i \<in> set (num # sub_rels))"
    by auto
  with Cons show ?case by simp
qed

lemma mark_invalid_in_range:
  assumes "\<forall>(q1, q2) \<in> set constr. q1 < n \<and> q2 < n"
  shows "mark_invalid n constr pr v
           = Inr (\<lambda>u. v u \<and> \<not> (\<exists>c \<in> set constr. fst c = u \<and> pr (fst c) \<and> pr (snd c)))"
  using assms
proof (induction constr arbitrary: v)
  case Nil
  then show ?case by simp
next
  case (Cons c constr)
  obtain q1 q2 where c: "c = (q1, q2)" by (cases c)
  from Cons.prems c have rng: "q1 < n" "q2 < n"
    and rest: "\<forall>(q1, q2) \<in> set constr. q1 < n \<and> q2 < n" by auto
  let ?tail = "\<lambda>u. \<exists>c \<in> set constr. fst c = u \<and> pr (fst c) \<and> pr (snd c)"
  show ?case
  proof (cases "pr q1 \<and> pr q2")
    case True
    have step: "mark_invalid n (c # constr) pr v = mark_invalid n constr pr (v(q1 := False))"
      using True rng c by simp
    have "(\<lambda>u. (v(q1 := False)) u \<and> \<not> ?tail u)
            = (\<lambda>u. v u \<and> \<not> (\<exists>c \<in> set (c # constr). fst c = u \<and> pr (fst c) \<and> pr (snd c)))"
      using True c by (intro ext) auto
    with Cons.IH [OF rest, of "v(q1 := False)"] step show ?thesis
      by (simp only:)
  next
    case False
    have step: "mark_invalid n (c # constr) pr v = mark_invalid n constr pr v"
      using False rng c by auto
    have "(\<lambda>u. v u \<and> \<not> ?tail u)
            = (\<lambda>u. v u \<and> \<not> (\<exists>c \<in> set (c # constr). fst c = u \<and> pr (fst c) \<and> pr (snd c)))"
      using False c by (intro ext) auto
    with Cons.IH [OF rest, of v] step show ?thesis
      by (simp only:)
  qed
qed

lemma split_loop_filter:
  "split_loop proot gather valid bitmap us P
     = split_loop proot gather (\<lambda>u. True) bitmap (filter valid us) P"
  by (induction us arbitrary: P) (simp_all add: Let_def split: sum.splits)

lemma try_splits_in_range:
  assumes "\<forall>num \<in> set sub_rels. num < levels_needed \<and> num < 31"
    and "\<forall>(q1, q2) \<in> set constr. q1 < levels_needed \<and> q2 < levels_needed"
  shows "right_hand_sides levels_needed sub_rels constr
           = Inr (filter (\<lambda>u. \<not> (\<exists>v \<in> set sub_rels. (u, v) \<in> set constr)) sub_rels)"
    and "try_splits proot sub_rels constr P levels_needed
           = split_loop proot (length sub_rels \<noteq> levels_needed) (\<lambda>u. True)
               (bitmap_of sub_rels 0)
               (filter (\<lambda>u. \<not> (\<exists>v \<in> set sub_rels. (u, v) \<in> set constr)) sub_rels) P"
proof -
  let ?present = "\<lambda>i. i \<in> set sub_rels"
  let ?valid = "\<lambda>u. True \<and> \<not> (\<exists>c \<in> set constr. fst c = u \<and> ?present (fst c) \<and> ?present (snd c))"
  let ?rhs = "\<lambda>u. \<not> (\<exists>v \<in> set sub_rels. (u, v) \<in> set constr)"
  have mp: "mark_present levels_needed sub_rels (0, \<lambda>i. False)
              = Inr (bitmap_of sub_rels 0, ?present)"
    using mark_present_in_range [OF assms(1), of 0 "\<lambda>i. False"] by simp
  have mi: "mark_invalid levels_needed constr ?present (\<lambda>i. True) = Inr ?valid"
    by (rule mark_invalid_in_range [OF assms(2)])
  have "\<forall>u \<in> set sub_rels. ?valid u = ?rhs u"
    by force
  then have flt: "filter ?valid sub_rels = filter ?rhs sub_rels"
    by (intro filter_cong) auto
  have "right_hand_sides levels_needed sub_rels constr = Inr (filter ?valid sub_rels)"
    by (simp only: right_hand_sides_def mp mi sum.case prod.case)
  then show "right_hand_sides levels_needed sub_rels constr = Inr (filter ?rhs sub_rels)"
    by (simp only: flt)
  have "try_splits proot sub_rels constr P levels_needed
          = split_loop proot (length sub_rels \<noteq> levels_needed) ?valid (bitmap_of sub_rels 0)
              sub_rels P"
    by (simp only: try_splits_def mp mi sum.case prod.case)
  also have "\<dots> = split_loop proot (length sub_rels \<noteq> levels_needed) (\<lambda>u. True)
                     (bitmap_of sub_rels 0) (filter ?valid sub_rels) P"
    by (rule split_loop_filter)
  finally show "try_splits proot sub_rels constr P levels_needed
          = split_loop proot (length sub_rels \<noteq> levels_needed) (\<lambda>u. True)
              (bitmap_of sub_rels 0) (filter ?rhs sub_rels) P"
    by (simp only: flt)
qed

text \<open>
  C5, as it holds. In \<^verbatim>\<open>try_splits\<close>, for a set \<open>S\<close> (\<^verbatim>\<open>sub_rels\<close>) and constraints whose
  ordinals are all below \<^verbatim>\<open>levels_needed\<close>: an ordinal \<open>u\<close> of \<open>S\<close> is a right-hand element
  iff no constraint \<open>(u, v)\<close> requires \<open>u\<close> itself to precede a member \<open>v\<close> of \<open>S\<close>. The
  splitter is the loop over exactly these ordinals, each giving the split of the bitmap
  of \<open>S\<close> into the bitmap without bit \<open>u\<close> and the bit \<open>u\<close>; the other ordinals give no
  split.
\<close>

theorem try_splits_right_hand_elements:
  assumes "\<forall>num \<in> set sub_rels. num < levels_needed \<and> num < 31"
    and "\<forall>(q1, q2) \<in> set constr. q1 < levels_needed \<and> q2 < levels_needed"
  shows "right_hand_sides levels_needed sub_rels constr
           = Inr (filter (\<lambda>u. \<not> (\<exists>v \<in> set sub_rels. (u, v) \<in> set constr)) sub_rels)
         \<and> (\<exists>bitmap. (\<forall>n. bit bitmap n \<longleftrightarrow> n \<in> set sub_rels)
              \<and> try_splits proot sub_rels constr P levels_needed
                  = split_loop proot (length sub_rels \<noteq> levels_needed) (\<lambda>u. True) bitmap
                      (filter (\<lambda>u. \<not> (\<exists>v \<in> set sub_rels. (u, v) \<in> set constr)) sub_rels) P)"
proof -
  have "\<forall>n. bit (bitmap_of sub_rels 0) n \<longleftrightarrow> n \<in> set sub_rels"
    by (simp add: bit_bitmap_of)
  with try_splits_in_range(1) [OF assms] try_splits_in_range(2) [OF assms, of proot P]
  show ?thesis by blast
qed

theorem try_splits_right_hand_elements_witness:
  "list_all (\<lambda>num. num < 4 \<and> num < 31) [0, 1, 2 :: nat]
   \<and> list_all (\<lambda>(q1, q2). q1 < 4 \<and> q2 < 4) ([(0, 1), (3, 2)] :: (nat \<times> nat) list)
   \<and> right_hand_sides 4 [0, 1, 2] [(0, 1), (3, 2)] = Inr [1, 2]
   \<and> (\<exists>bitmap. (\<forall>n. bit bitmap n \<longleftrightarrow> n \<in> set [0, 1, 2 :: nat])
        \<and> try_splits order_planner [0, 1, 2] [(0, 1), (3, 2)] recorded_pair_table 4
            = split_loop order_planner (length [0, 1, 2 :: nat] \<noteq> 4) (\<lambda>u. True) bitmap [1, 2]
                recorded_pair_table)"
proof -
  have h1: "\<forall>num \<in> set [0, 1, 2 :: nat]. num < (4::nat) \<and> num < 31"
    by simp
  have h2: "\<forall>(q1, q2) \<in> set ([(0, 1), (3, 2)] :: (nat \<times> nat) list). q1 < (4::nat) \<and> q2 < 4"
    by simp
  have f: "filter (\<lambda>u. \<not> (\<exists>v \<in> set [0, 1, 2 :: nat]. (u, v) \<in> set ([(0, 1), (3, 2)] :: (nat \<times> nat) list)))
             [0, 1, 2] = [1, 2]"
    by simp
  from try_splits_right_hand_elements [OF h1 h2, of order_planner recorded_pair_table]
  have "right_hand_sides 4 [0, 1, 2] [(0, 1), (3, 2)] = Inr [1, 2]
        \<and> (\<exists>bitmap. (\<forall>n. bit bitmap n \<longleftrightarrow> n \<in> set [0, 1, 2 :: nat])
             \<and> try_splits order_planner [0, 1, 2] [(0, 1), (3, 2)] recorded_pair_table 4
                 = split_loop order_planner (length [0, 1, 2 :: nat] \<noteq> 4) (\<lambda>u. True) bitmap
                     [1, 2] recorded_pair_table)"
    by (simp only: f)
  moreover have "list_all (\<lambda>num. num < 4 \<and> num < 31) [0, 1, 2 :: nat]"
    by simp
  moreover have "list_all (\<lambda>(q1, q2). q1 < 4 \<and> q2 < 4) ([(0, 1), (3, 2)] :: (nat \<times> nat) list)"
    by simp
  ultimately show ?thesis by blast
qed

text \<open>
  C5, as stated, has the constraint the other way round: it makes \<open>u\<close> invalid when a
  constraint requires another member of \<open>S\<close> to precede \<open>u\<close>. With the constraint \<open>(0, 1)\<close>
  and \<open>S = {0, 1}\<close> the code splits off table 1 only, where the stated rule splits off
  table 0 only.
\<close>

theorem try_splits_right_hand_elements_counterexample:
  "right_hand_sides 2 [0, 1] [(0, 1)] = Inr [1]
   \<and> filter (spec_valid_right_hand [(0, 1)] [0, 1]) [0, 1] = [0]"
  by code_simp

section \<open>Clump assembler: the order of the clump list\<close>

lemma insert_after_cell_position:
  assumes "frelList \<noteq> []" and "s \<le> bms_num_members (relids (hd frelList))"
  shows "insert_after_cell s rel frelList
           = takeWhile (\<lambda>x. s \<le> bms_num_members (relids x)) frelList
             @ rel # dropWhile (\<lambda>x. s \<le> bms_num_members (relids x)) frelList"
  using assms
proof (induction s rel frelList rule: insert_after_cell.induct)
  case (1 rel_size rel)
  then show ?case by simp
next
  case (2 rel_size rel lc)
  then show ?case by simp
next
  case (3 rel_size rel lc nxt frelList)
  show ?case
  proof (cases "rel_size > bms_num_members (relids nxt)")
    case True
    with 3(3) show ?thesis by simp
  next
    case False
    with 3(1) have "insert_after_cell rel_size rel (nxt # frelList)
           = takeWhile (\<lambda>x. rel_size \<le> bms_num_members (relids x)) (nxt # frelList)
             @ rel # dropWhile (\<lambda>x. rel_size \<le> bms_num_members (relids x)) (nxt # frelList)"
      by simp
    with False 3(3) show ?thesis by simp
  qed
qed

lemma insert_clump_position:
  assumes "\<forall>x \<in> set frelList. 1 \<le> bms_num_members (relids x)"
    and "1 \<le> bms_num_members (relids rel)"
  shows "insert_clump frelList rel
           = takeWhile (\<lambda>x. bms_num_members (relids rel) \<le> bms_num_members (relids x)) frelList
             @ rel # dropWhile (\<lambda>x. bms_num_members (relids rel) \<le> bms_num_members (relids x)) frelList"
proof (cases "frelList = []")
  case True
  then show ?thesis by (simp add: insert_clump_def Let_def)
next
  case nonempty: False
  show ?thesis
  proof (cases "bms_num_members (relids rel) = 1")
    case True
    with assms(1) have all: "\<forall>x \<in> set frelList. bms_num_members (relids rel) \<le> bms_num_members (relids x)"
      by simp
    then have "takeWhile (\<lambda>x. bms_num_members (relids rel) \<le> bms_num_members (relids x)) frelList = frelList"
      and "dropWhile (\<lambda>x. bms_num_members (relids rel) \<le> bms_num_members (relids x)) frelList = []"
      by simp_all
    moreover from True have "insert_clump frelList rel = frelList @ [rel]"
      by (simp add: insert_clump_def Let_def)
    ultimately show ?thesis by (simp only: append.simps)
  next
    case notone: False
    show ?thesis
    proof (cases "bms_num_members (relids rel) > bms_num_members (relids (hd frelList))")
      case True
      with nonempty have "takeWhile (\<lambda>x. bms_num_members (relids rel) \<le> bms_num_members (relids x)) frelList = []"
        and "dropWhile (\<lambda>x. bms_num_members (relids rel) \<le> bms_num_members (relids x)) frelList = frelList"
        by (cases frelList; simp)+
      with True nonempty notone show ?thesis by (simp add: insert_clump_def Let_def)
    next
      case False
      with nonempty notone insert_after_cell_position [of frelList "bms_num_members (relids rel)" rel]
      show ?thesis by (simp add: insert_clump_def Let_def)
    qed
  qed
qed

lemma dropWhile_below:
  assumes "sorted_wrt (\<lambda>a b. f b \<le> f a) xs" and "b \<in> set (dropWhile (\<lambda>x. (s::nat) \<le> f x) xs)"
  shows "f b < s"
  using assms
proof (induction xs)
  case Nil
  then show ?case by simp
next
  case (Cons x xs)
  show ?case
  proof (cases "s \<le> f x")
    case True
    with Cons.prems have "sorted_wrt (\<lambda>a b. f b \<le> f a) xs"
      and "b \<in> set (dropWhile (\<lambda>x. s \<le> f x) xs)" by simp_all
    then show ?thesis by (rule Cons.IH)
  next
    case False
    with Cons.prems(2) have "b = x \<or> b \<in> set xs" by simp
    moreover from Cons.prems(1) have "\<forall>z \<in> set xs. f z \<le> f x" by simp
    ultimately have "f b \<le> f x" by auto
    with False show ?thesis by simp
  qed
qed

lemma sorted_insert_position:
  assumes "f y = s" and "sorted_wrt (\<lambda>a b. f b \<le> f a) xs"
  shows "sorted_wrt (\<lambda>a b. f b \<le> f a)
           (takeWhile (\<lambda>x. (s::nat) \<le> f x) xs @ y # dropWhile (\<lambda>x. s \<le> f x) xs)"
proof -
  let ?P = "\<lambda>x. s \<le> f x"
  from assms(2) have "sorted_wrt (\<lambda>a b. f b \<le> f a) (takeWhile ?P xs @ dropWhile ?P xs)"
    by simp
  then have t: "sorted_wrt (\<lambda>a b. f b \<le> f a) (takeWhile ?P xs)"
    and d: "sorted_wrt (\<lambda>a b. f b \<le> f a) (dropWhile ?P xs)"
    unfolding sorted_wrt_append by blast+
  have above: "s \<le> f a" if "a \<in> set (takeWhile ?P xs)" for a
    using that by (rule set_takeWhileD [THEN conjunct2])
  have below: "f b < s" if "b \<in> set (dropWhile ?P xs)" for b
    using assms(2) that by (rule dropWhile_below)
  have "sorted_wrt (\<lambda>a b. f b \<le> f a) (y # dropWhile ?P xs)"
    using d below assms(1) by (simp add: less_imp_le)
  moreover have "\<forall>a \<in> set (takeWhile ?P xs). \<forall>b \<in> set (y # dropWhile ?P xs). f b \<le> f a"
  proof (intro ballI)
    fix a b
    assume a: "a \<in> set (takeWhile ?P xs)" and b: "b \<in> set (y # dropWhile ?P xs)"
    from b have "f b \<le> s"
      using below assms(1) by (auto simp: less_imp_le)
    with above [OF a] show "f b \<le> f a" by simp
  qed
  ultimately show ?thesis
    using t unfolding sorted_wrt_append by blast
qed

lemma merge_target_removes_one:
  assumes "merge_target proot rel frelList = Some (joinrel, rest)"
  shows "\<exists>pre old post. frelList = pre @ old # post \<and> rest = pre @ post
           \<and> make_join_rel proot old rel = Some joinrel"
  using assms
proof (induction frelList arbitrary: joinrel rest)
  case Nil
  then show ?case by simp
next
  case (Cons old_rel frelList)
  show ?case
  proof (cases "make_join_rel proot old_rel rel")
    case (Some j)
    with Cons.prems have "joinrel = j" "rest = frelList" by simp_all
    with Some have "old_rel # frelList = [] @ old_rel # frelList \<and> rest = [] @ frelList
           \<and> make_join_rel proot old_rel rel = Some joinrel" by simp
    then show ?thesis by blast
  next
    case None
    with Cons.prems obtain rest' where m: "merge_target proot rel frelList = Some (joinrel, rest')"
      and r: "rest = old_rel # rest'"
      by (auto split: option.splits)
    from Cons.IH [OF m] obtain pre old post where
      "frelList = pre @ old # post" "rest' = pre @ post" "make_join_rel proot old rel = Some joinrel"
      by blast
    with r have "old_rel # frelList = (old_rel # pre) @ old # post \<and> rest = (old_rel # pre) @ post
           \<and> make_join_rel proot old rel = Some joinrel" by simp
    then show ?thesis by blast
  qed
qed

lemma force_merge_clump_step:
  assumes "sorted_wrt (\<lambda>a b. bms_num_members (relids b) \<le> bms_num_members (relids a)) frelList"
    and "\<forall>x \<in> set frelList. 1 \<le> bms_num_members (relids x)"
    and "1 \<le> bms_num_members (relids rel)"
    and "\<forall>a b j g. make_join_rel proot a b = Some j
           \<longrightarrow> 1 \<le> bms_num_members (relids (cheapest_paths proot g j))"
  shows "\<exists>rest clump.
           force_merge_clump proot levels_needed frelList rel = insert_clump rest clump
         \<and> sorted_wrt (\<lambda>a b. bms_num_members (relids b) \<le> bms_num_members (relids a)) rest
         \<and> insert_clump rest clump
             = takeWhile (\<lambda>x. bms_num_members (relids clump) \<le> bms_num_members (relids x)) rest
               @ clump
               # dropWhile (\<lambda>x. bms_num_members (relids clump) \<le> bms_num_members (relids x)) rest
         \<and> sorted_wrt (\<lambda>a b. bms_num_members (relids b) \<le> bms_num_members (relids a))
               (insert_clump rest clump)
         \<and> (\<forall>x \<in> set (insert_clump rest clump). 1 \<le> bms_num_members (relids x))"
  using assms
proof (induction proot levels_needed frelList rel rule: force_merge_clump.induct)
  case (1 proot levels_needed frelList rel)
  note planner = "1.prems"(4)
  show ?case
  proof (cases "merge_target proot rel frelList")
    case None
    have pos: "insert_clump frelList rel
           = takeWhile (\<lambda>x. bms_num_members (relids rel) \<le> bms_num_members (relids x)) frelList
             @ rel # dropWhile (\<lambda>x. bms_num_members (relids rel) \<le> bms_num_members (relids x)) frelList"
      by (rule insert_clump_position [OF "1.prems"(2,3)])
    have srt: "sorted_wrt (\<lambda>a b. bms_num_members (relids b) \<le> bms_num_members (relids a))
                 (insert_clump frelList rel)"
      using sorted_insert_position [OF refl "1.prems"(1), of rel] pos
      by (simp only:)
    have mem: "\<forall>x \<in> set (insert_clump frelList rel). 1 \<le> bms_num_members (relids x)"
      unfolding pos using "1.prems"(2,3)
      by (auto dest: set_takeWhileD set_dropWhileD)
    have "force_merge_clump proot levels_needed frelList rel = insert_clump frelList rel"
      using None by (simp add: force_merge_clump.simps)
    with pos srt mem "1.prems"(1) show ?thesis by blast
  next
    case (Some found)
    obtain joinrel rest where found: "found = (joinrel, rest)" by (cases found)
    with Some have mt: "merge_target proot rel frelList = Some (joinrel, rest)" by simp
    from merge_target_removes_one [OF mt] obtain pre old post where
      split: "frelList = pre @ old # post" "rest = pre @ post"
      and j: "make_join_rel proot old rel = Some joinrel" by blast
    let ?new = "cheapest_paths proot (bms_num_members (relids joinrel) < levels_needed) joinrel"
    from split "1.prems"(1)
    have s: "sorted_wrt (\<lambda>a b. bms_num_members (relids b) \<le> bms_num_members (relids a)) rest"
      by (auto simp: sorted_wrt_append)
    from split "1.prems"(2) have m: "\<forall>x \<in> set rest. 1 \<le> bms_num_members (relids x)"
      by auto
    from planner j have n: "1 \<le> bms_num_members (relids ?new)"
      by blast
    have "force_merge_clump proot levels_needed frelList rel
            = force_merge_clump proot levels_needed rest ?new"
      using mt by (simp add: force_merge_clump.simps)
    with "1.IH" [OF mt refl s m n planner] show ?thesis
      by simp
  qed
qed

lemma force_merge_phase_invariant:
  assumes "\<forall>x \<in> set relList. 1 \<le> bms_num_members (relids x)"
    and "\<forall>a b j g. make_join_rel proot a b = Some j
           \<longrightarrow> 1 \<le> bms_num_members (relids (cheapest_paths proot g j))"
  shows "sorted_wrt (\<lambda>a b. bms_num_members (relids b) \<le> bms_num_members (relids a))
           (foldl (force_merge_clump proot levels_needed) [] relList)
         \<and> (\<forall>x \<in> set (foldl (force_merge_clump proot levels_needed) [] relList).
                1 \<le> bms_num_members (relids x))"
  using assms(1)
proof (induction relList rule: rev_induct)
  case Nil
  show ?case by simp
next
  case (snoc rel relList)
  from snoc.prems have rest: "\<forall>x \<in> set relList. 1 \<le> bms_num_members (relids x)"
    and rel: "1 \<le> bms_num_members (relids rel)" by simp_all
  from snoc.IH [OF rest]
  have s: "sorted_wrt (\<lambda>a b. bms_num_members (relids b) \<le> bms_num_members (relids a))
             (foldl (force_merge_clump proot levels_needed) [] relList)"
    and m: "\<forall>x \<in> set (foldl (force_merge_clump proot levels_needed) [] relList).
              1 \<le> bms_num_members (relids x)"
    by blast+
  from force_merge_clump_step [OF s m rel assms(2), of levels_needed]
  have "sorted_wrt (\<lambda>a b. bms_num_members (relids b) \<le> bms_num_members (relids a))
          (force_merge_clump proot levels_needed
             (foldl (force_merge_clump proot levels_needed) [] relList) rel)
        \<and> (\<forall>x \<in> set (force_merge_clump proot levels_needed
                           (foldl (force_merge_clump proot levels_needed) [] relList) rel).
               1 \<le> bms_num_members (relids x))"
    by metis
  then show ?case by simp
qed

text \<open>
  C9. In the force-merge phase of \<^verbatim>\<open>construct_rel_based_on_plan\<close> the list starts empty
  and the clumps are handed to \<^verbatim>\<open>force_merge_clump\<close> one by one. Provided every clump,
  and every join the planner builds, has at least one member: after any clumps \<open>earlier\<close>
  have been processed, the call for the next clump \<open>rel\<close> ends in the insertion of a
  clump into a list \<open>rest\<close> that is in non-increasing order of size; the clump goes after
  every clump at least as large as itself (behind the clumps of its own size that were
  there before it) and in front of the smaller ones; and the list returned is in
  non-increasing order of size again.
\<close>

theorem force_merge_clump_size_descending:
  assumes "\<forall>x \<in> set (earlier @ [rel]). 1 \<le> bms_num_members (relids x)"
    and "\<forall>a b j g. make_join_rel proot a b = Some j
           \<longrightarrow> 1 \<le> bms_num_members (relids (cheapest_paths proot g j))"
  shows "\<exists>rest clump.
           force_merge_clump proot levels_needed
             (foldl (force_merge_clump proot levels_needed) [] earlier) rel
             = insert_clump rest clump
         \<and> sorted_wrt (\<lambda>a b. bms_num_members (relids b) \<le> bms_num_members (relids a)) rest
         \<and> insert_clump rest clump
             = takeWhile (\<lambda>x. bms_num_members (relids clump) \<le> bms_num_members (relids x)) rest
               @ clump
               # dropWhile (\<lambda>x. bms_num_members (relids clump) \<le> bms_num_members (relids x)) rest
         \<and> sorted_wrt (\<lambda>a b. bms_num_members (relids b) \<le> bms_num_members (relids a))
               (insert_clump rest clump)"
proof -
  from assms(1) have earlier: "\<forall>x \<in> set earlier. 1 \<le> bms_num_members (relids x)"
    and rel: "1 \<le> bms_num_members (relids rel)" by simp_all
  from force_merge_phase_invariant [OF earlier assms(2), of levels_needed]
  have s: "sorted_wrt (\<lambda>a b. bms_num_members (relids b) \<le> bms_num_members (relids a))
             (foldl (force_merge_clump proot levels_needed) [] earlier)"
    and m: "\<forall>x \<in> set (foldl (force_merge_clump proot levels_needed) [] earlier).
              1 \<le> bms_num_members (relids x)"
    by blast+
  from force_merge_clump_step [OF s m rel assms(2), of levels_needed]
  show ?thesis by blast
qed

theorem force_merge_clump_size_descending_witness:
  "list_all (\<lambda>x. 1 \<le> bms_num_members (relids x)) ([pair_rel 0 1, base_rel 2] @ [pair_rel 3 4])
   \<and> force_merge_clump no_join_planner 5
         (foldl (force_merge_clump no_join_planner 5) [] [pair_rel 0 1, base_rel 2]) (pair_rel 3 4)
       = [pair_rel 0 1, pair_rel 3 4, base_rel 2]
   \<and> (\<exists>rest clump.
           force_merge_clump no_join_planner 5
             (foldl (force_merge_clump no_join_planner 5) [] [pair_rel 0 1, base_rel 2])
             (pair_rel 3 4)
             = insert_clump rest clump
         \<and> sorted_wrt (\<lambda>a b. bms_num_members (relids b) \<le> bms_num_members (relids a)) rest
         \<and> insert_clump rest clump
             = takeWhile (\<lambda>x. bms_num_members (relids clump) \<le> bms_num_members (relids x)) rest
               @ clump
               # dropWhile (\<lambda>x. bms_num_members (relids clump) \<le> bms_num_members (relids x)) rest
         \<and> sorted_wrt (\<lambda>a b. bms_num_members (relids b) \<le> bms_num_members (relids a))
               (insert_clump rest clump))"
proof -
  have sizes: "\<forall>x \<in> set ([pair_rel 0 1, base_rel 2] @ [pair_rel 3 4]).
                 1 \<le> bms_num_members (relids x)"
    by (simp add: pair_rel_def base_rel_def bms_num_members_def)
  have planner: "\<forall>a b j g. make_join_rel no_join_planner a b = Some j
           \<longrightarrow> 1 \<le> bms_num_members (relids (cheapest_paths no_join_planner g j))"
    by (simp add: no_join_planner_def)
  have run: "force_merge_clump no_join_planner 5
         (foldl (force_merge_clump no_join_planner 5) [] [pair_rel 0 1, base_rel 2]) (pair_rel 3 4)
       = [pair_rel 0 1, pair_rel 3 4, base_rel 2]"
    by code_simp
  from sizes have "list_all (\<lambda>x. 1 \<le> bms_num_members (relids x))
                     ([pair_rel 0 1, base_rel 2] @ [pair_rel 3 4])"
    by (simp only: list_all_iff)
  with run force_merge_clump_size_descending [OF sizes planner, of 5]
  show ?thesis by blast
qed

section \<open>Clump assembler: success and failure\<close>

lemma try_merge_clump_nonempty:
  "try_merge_clump proot levels_needed initial_rels bt = Inr relList \<Longrightarrow> relList \<noteq> []"
proof (induction bt arbitrary: relList)
  case (Leaf ids)
  then show ?case by (auto split: list.splits if_splits)
next
  case (Internal ids l r)
  from Internal.prems obtain list1 list2 where
    l: "try_merge_clump proot levels_needed initial_rels l = Inr list1" and
    r: "try_merge_clump proot levels_needed initial_rels r = Inr list2"
    by (auto split: sum.splits)
  from Internal.IH(1) [OF l] have n1: "list1 \<noteq> []" .
  show ?case
  proof (cases "length list1 > 1 \<or> length list2 > 1")
    case True
    with Internal.prems l r have "relList = list1 @ list2" by simp
    with n1 show ?thesis by simp
  next
    case False
    with Internal.prems l r n1 show ?thesis
      by (auto split: list.splits option.splits if_splits)
  qed
qed

lemma insert_after_cell_nonempty: "insert_after_cell s rel frelList \<noteq> []"
  by (induction s rel frelList rule: insert_after_cell.induct) auto

lemma insert_clump_nonempty: "insert_clump frelList rel \<noteq> []"
  by (simp add: insert_clump_def Let_def insert_after_cell_nonempty)

lemma force_merge_clump_nonempty: "force_merge_clump proot levels_needed frelList rel \<noteq> []"
proof (induction proot levels_needed frelList rel rule: force_merge_clump.induct)
  case (1 proot levels_needed frelList rel)
  show ?case
  proof (cases "merge_target proot rel frelList")
    case None
    then show ?thesis by (simp add: force_merge_clump.simps insert_clump_nonempty)
  next
    case (Some found)
    obtain joinrel rest where "found = (joinrel, rest)" by (cases found)
    with Some have mt: "merge_target proot rel frelList = Some (joinrel, rest)" by simp
    from "1.IH" [OF mt refl] mt show ?thesis
      by (simp add: force_merge_clump.simps [of proot levels_needed frelList rel])
  qed
qed

lemma force_merge_all_nonempty:
  "relList \<noteq> [] \<Longrightarrow> foldl (force_merge_clump proot levels_needed) [] relList \<noteq> []"
  by (cases relList rule: rev_cases) (simp_all add: force_merge_clump_nonempty)

lemma clumps_after_merging_nonempty:
  assumes "clumps_after_merging proot levels_needed initial_rels bt = Inr relList"
  shows "relList \<noteq> []"
proof -
  from assms obtain walked where
    w: "try_merge_clump proot levels_needed initial_rels bt = Inr walked"
    by (auto simp: clumps_after_merging_def split: sum.splits)
  from try_merge_clump_nonempty [OF w] have n: "walked \<noteq> []" .
  show ?thesis
  proof (cases "length walked > 1")
    case True
    with assms w have "relList = foldl (force_merge_clump proot levels_needed) [] walked"
      by (simp add: clumps_after_merging_def)
    with n show ?thesis by (simp add: force_merge_all_nonempty)
  next
    case False
    with assms w have "relList = walked" by (simp add: clumps_after_merging_def)
    with n show ?thesis by simp
  qed
qed

text \<open>
  C10. \<^verbatim>\<open>construct_rel_based_on_plan\<close> returns a relation \<open>r\<close> exactly when the clump list
  after the guide-tree walk and the force-merge is the one clump \<open>r\<close>. The list is never
  empty, so in every other run that reaches the test two or more clumps remain, and
  then, and only then, it returns \<^verbatim>\<open>NULL\<close> to its caller.
\<close>

theorem construct_rel_succeeds_iff_one_clump:
  "(construct_rel_based_on_plan proot levels_needed initial_rels bt = Inr (Some r)
      \<longleftrightarrow> clumps_after_merging proot levels_needed initial_rels bt = Inr [r])
   \<and> (construct_rel_based_on_plan proot levels_needed initial_rels bt = Inr None
      \<longleftrightarrow> (\<exists>relList. clumps_after_merging proot levels_needed initial_rels bt = Inr relList
                    \<and> 2 \<le> length relList))"
proof (cases "clumps_after_merging proot levels_needed initial_rels bt")
  case (Inl f)
  then show ?thesis by (simp add: construct_rel_based_on_plan_def)
next
  case (Inr relList)
  from clumps_after_merging_nonempty [OF Inr] have n: "relList \<noteq> []" .
  show ?thesis
  proof (cases relList)
    case Nil
    with n show ?thesis by simp
  next
    case (Cons x xs)
    show ?thesis
    proof (cases xs)
      case Nil
      with Cons Inr show ?thesis by (simp add: construct_rel_based_on_plan_def)
    next
      case (Cons y ys)
      with \<open>relList = x # xs\<close> Inr show ?thesis by (simp add: construct_rel_based_on_plan_def)
    qed
  qed
qed

text \<open>
  Both outcomes occur: on the tree \<open>((0 1) 2)\<close> a planner that joins every pair leaves one
  clump, and a planner that joins nothing leaves three.
\<close>

lemma construct_rel_based_on_plan_runs:
  "map_option relids
     (projr (construct_rel_based_on_plan order_planner 3 [base_rel 0, base_rel 1, base_rel 2]
        (Internal [0, 1, 2] (Internal [0, 1] (Leaf [0]) (Leaf [1])) (Leaf [2]))))
     = Some {0, 1, 2}
   \<and> construct_rel_based_on_plan no_join_planner 3 [base_rel 0, base_rel 1, base_rel 2]
        (Internal [0, 1, 2] (Internal [0, 1] (Leaf [0]) (Leaf [1])) (Leaf [2]))
     = Inr None
   \<and> clumps_after_merging no_join_planner 3 [base_rel 0, base_rel 1, base_rel 2]
        (Internal [0, 1, 2] (Internal [0, 1] (Leaf [0]) (Leaf [1])) (Leaf [2]))
     = Inr [base_rel 0, base_rel 1, base_rel 2]"
  by code_simp

section \<open>Admissible-set generator: the sets it enumerates\<close>

lemma cps_flags_eq:
  assumes "q1 \<noteq> q2"
  shows "cps_flags constr q1 q2 (f1, f2)
           = (f1 \<and> q1 \<notin> snd ` set constr, f2 \<and> q2 \<notin> snd ` set constr)"
  using assms by (induction constr arbitrary: f1 f2) auto

lemma constrained_power_set_sets:
  assumes "q1 \<noteq> q2"
  shows "set ` set (constrained_power_set constr q1 q2)
           = {{q1, q2}} \<union> (if q1 \<in> snd ` set constr then {} else {{q1}})
             \<union> (if q2 \<in> snd ` set constr then {} else {{q2}})"
  by (auto simp: constrained_power_set_def cps_flags_eq [OF assms])

lemma cartesian_product_sets:
  "set ` set (cartesian_product a b)
     = set ` set a \<union> set ` set b \<union> {x \<union> y | x y. x \<in> set ` set a \<and> y \<in> set ` set b}"
proof (cases "a = [] \<or> b = []")
  case True
  then show ?thesis by (auto simp: cartesian_product_def)
next
  case False
  have "set ` set (concat (map (\<lambda>bi. map (\<lambda>aj. copy_concat_int bi aj) a) b))
          = {x \<union> y | x y. x \<in> set ` set a \<and> y \<in> set ` set b}"
    by (auto simp: copy_concat_int_def image_iff) blast+
  with False show ?thesis
    by (simp add: cartesian_product_def image_Un Un_assoc)
qed

lemma pair_allowed_cong:
  assumes "2 * j \<in> S \<longleftrightarrow> 2 * j \<in> T" and "2 * j + 1 \<in> S \<longleftrightarrow> 2 * j + 1 \<in> T"
  shows "pair_allowed constr j S \<longleftrightarrow> pair_allowed constr j T"
  using assms by (simp add: pair_allowed_def)

lemma pair_allowed_absent:
  assumes "2 * j \<notin> S" and "2 * j + 1 \<notin> S"
  shows "pair_allowed constr j S"
  using assms by (simp add: pair_allowed_def)

lemma power_set_of_pair:
  "y \<in> set ` set (constrained_power_set constr (2 * m) (2 * m + 1))
     \<longleftrightarrow> y \<noteq> {} \<and> y \<subseteq> {2 * m, 2 * m + 1} \<and> pair_allowed constr m y"
proof -
  have ne: "2 * m \<noteq> 2 * m + 1" by simp
  have cases: "y \<subseteq> {2 * m, 2 * m + 1}
                 \<longleftrightarrow> y = {} \<or> y = {2 * m} \<or> y = {2 * m + 1} \<or> y = {2 * m, 2 * m + 1}"
    by (rule subset_insert_iff [THEN trans]) (auto simp: subset_singleton_iff)
  show ?thesis
    unfolding constrained_power_set_sets [OF ne] cases pair_allowed_def
    by auto
qed

lemma below_pair:
  assumes "j < (m::nat)" and "S \<subseteq> {2 * m, 2 * m + 1}"
  shows "2 * j \<notin> S" and "2 * j + 1 \<notin> S"
proof -
  from assms(2) have "\<forall>z \<in> S. 2 * m \<le> z" by auto
  with assms(1) show "2 * j \<notin> S" and "2 * j + 1 \<notin> S" by fastforce+
qed

lemma pairwise_closed_Suc:
  "pairwise_closed constr (Suc m)
     = pairwise_closed constr m
       \<union> set ` set (constrained_power_set constr (2 * m) (2 * m + 1))
       \<union> {x \<union> y | x y. x \<in> pairwise_closed constr m
                        \<and> y \<in> set ` set (constrained_power_set constr (2 * m) (2 * m + 1))}"
  (is "?L = ?A \<union> ?G \<union> ?AG")
proof (intro set_eqI iffI)
  fix S
  assume S: "S \<in> ?L"
  define x where "x = S \<inter> {0..<2 * m}"
  define y where "y = S \<inter> {2 * m, 2 * m + 1}"
  from S have ne: "S \<noteq> {}" and sub: "S \<subseteq> {0..<2 * Suc m}"
    and pa: "\<And>j. j < Suc m \<Longrightarrow> pair_allowed constr j S"
    by (simp_all add: pairwise_closed_def)
  have Sxy: "S = x \<union> y"
    using sub unfolding x_def y_def by (auto simp: less_Suc_eq)
  have xpa: "pair_allowed constr j x" if "j < m" for j
  proof -
    from that have "2 * j \<in> S \<longleftrightarrow> 2 * j \<in> x" "2 * j + 1 \<in> S \<longleftrightarrow> 2 * j + 1 \<in> x"
      unfolding x_def by auto
    from pair_allowed_cong [OF this] pa [of j] that show ?thesis by simp
  qed
  have ypa: "pair_allowed constr m y"
  proof -
    have "2 * m \<in> S \<longleftrightarrow> 2 * m \<in> y" "2 * m + 1 \<in> S \<longleftrightarrow> 2 * m + 1 \<in> y"
      unfolding y_def by auto
    from pair_allowed_cong [OF this] pa [of m] show ?thesis by simp
  qed
  have xin: "x \<in> ?A" if "x \<noteq> {}"
    using that xpa unfolding pairwise_closed_def x_def by auto
  have yin: "y \<in> ?G" if "y \<noteq> {}"
  proof -
    have "y \<subseteq> {2 * m, 2 * m + 1}" unfolding y_def by blast
    with that ypa power_set_of_pair [of y constr m] show ?thesis by blast
  qed
  show "S \<in> ?A \<union> ?G \<union> ?AG"
  proof (cases "x = {}")
    case True
    with Sxy ne have "y \<noteq> {}" "S = y" by auto
    with yin show ?thesis by simp
  next
    case xne: False
    show ?thesis
    proof (cases "y = {}")
      case True
      with Sxy have "S = x" by simp
      with xin xne show ?thesis by simp
    next
      case False
      with xin yin xne Sxy have "S \<in> ?AG" by blast
      then show ?thesis by simp
    qed
  qed
next
  fix S
  assume "S \<in> ?A \<union> ?G \<union> ?AG"
  then consider (A) "S \<in> ?A" | (G) "S \<in> ?G" | (AG) "S \<in> ?AG" by blast
  then show "S \<in> ?L"
  proof cases
    case A
    then have ne: "S \<noteq> {}" and sub: "S \<subseteq> {0..<2 * m}"
      and pa: "\<And>j. j < m \<Longrightarrow> pair_allowed constr j S"
      by (simp_all add: pairwise_closed_def)
    from sub have "2 * m \<notin> S" "2 * m + 1 \<notin> S" by auto
    then have "pair_allowed constr m S" by (rule pair_allowed_absent)
    with pa have "\<And>j. j < Suc m \<Longrightarrow> pair_allowed constr j S"
      by (auto simp: less_Suc_eq)
    moreover from sub have "S \<subseteq> {0..<2 * Suc m}" by auto
    ultimately show ?thesis using ne by (simp add: pairwise_closed_def)
  next
    case G
    then have ne: "S \<noteq> {}" and sub: "S \<subseteq> {2 * m, 2 * m + 1}"
      and pm: "pair_allowed constr m S"
      using power_set_of_pair [of S constr m] by blast+
    have "pair_allowed constr j S" if "j < m" for j
    proof -
      from that sub have "2 * j \<notin> S" "2 * j + 1 \<notin> S" by (rule below_pair)+
      then show ?thesis by (rule pair_allowed_absent)
    qed
    with pm have "\<And>j. j < Suc m \<Longrightarrow> pair_allowed constr j S"
      by (auto simp: less_Suc_eq)
    moreover from sub have "S \<subseteq> {0..<2 * Suc m}" by auto
    ultimately show ?thesis using ne by (simp add: pairwise_closed_def)
  next
    case AG
    then obtain x y where S: "S = x \<union> y" and x: "x \<in> ?A" and y: "y \<in> ?G" by blast
    from x have xne: "x \<noteq> {}" and xsub: "x \<subseteq> {0..<2 * m}"
      and xpa: "\<And>j. j < m \<Longrightarrow> pair_allowed constr j x"
      by (simp_all add: pairwise_closed_def)
    from y have ysub: "y \<subseteq> {2 * m, 2 * m + 1}" and ypa: "pair_allowed constr m y"
      using power_set_of_pair [of y constr m] by blast+
    have "pair_allowed constr j S" if "j < m" for j
    proof -
      from that ysub have "2 * j \<notin> y" "2 * j + 1 \<notin> y" by (rule below_pair)+
      then have "2 * j \<in> S \<longleftrightarrow> 2 * j \<in> x" "2 * j + 1 \<in> S \<longleftrightarrow> 2 * j + 1 \<in> x"
        unfolding S by auto
      from pair_allowed_cong [OF this] xpa [OF that] show ?thesis by simp
    qed
    moreover have "pair_allowed constr m S"
    proof -
      from xsub have "2 * m \<notin> x" "2 * m + 1 \<notin> x" by auto
      then have "2 * m \<in> S \<longleftrightarrow> 2 * m \<in> y" "2 * m + 1 \<in> S \<longleftrightarrow> 2 * m + 1 \<in> y"
        unfolding S by auto
      from pair_allowed_cong [OF this] ypa show ?thesis by simp
    qed
    ultimately have "\<And>j. j < Suc m \<Longrightarrow> pair_allowed constr j S"
      by (auto simp: less_Suc_eq)
    moreover from xsub ysub have "S \<subseteq> {0..<2 * Suc m}" unfolding S by auto
    ultimately show ?thesis using xne S by (simp add: pairwise_closed_def)
  qed
qed

lemma pairwise_closed_0: "pairwise_closed constr 0 = {}"
  by (auto simp: pairwise_closed_def)

lemma adm_join_results_from_sets:
  assumes "i \<le> levels_needed div 2" and "set ` set join_res = pairwise_closed constr i"
  shows "set ` set (adm_join_results_from i levels_needed constr join_res)
           = pairwise_closed constr (levels_needed div 2)"
  using assms
proof (induction i levels_needed constr join_res rule: adm_join_results_from.induct)
  case (1 i levels_needed constr join_res)
  show ?case
  proof (cases "2 * i + 1 < levels_needed")
    case True
    then have le: "i + 1 \<le> levels_needed div 2" by arith
    have "set ` set (cartesian_product join_res (constrained_power_set constr (2 * i) (2 * i + 1)))
            = pairwise_closed constr (Suc i)"
      unfolding cartesian_product_sets pairwise_closed_Suc "1.prems"(2) ..
    then have "set ` set (cartesian_product join_res
                 (constrained_power_set constr (2 * i) (2 * i + 1)))
            = pairwise_closed constr (i + 1)" by simp
    from "1.IH" [OF True le this]
    have "set ` set (adm_join_results_from (i + 1) levels_needed constr
                 (cartesian_product join_res (constrained_power_set constr (2 * i) (2 * i + 1))))
            = pairwise_closed constr (levels_needed div 2)" .
    moreover from True
    have "adm_join_results_from i levels_needed constr join_res
            = adm_join_results_from (i + 1) levels_needed constr
                (cartesian_product join_res (constrained_power_set constr (2 * i) (2 * i + 1)))"
      by (subst adm_join_results_from.simps) simp
    ultimately show ?thesis by simp
  next
    case False
    with "1.prems"(1) have "i = levels_needed div 2" by arith
    moreover from False
    have "adm_join_results_from i levels_needed constr join_res = join_res"
      by (simp add: adm_join_results_from.simps [of i])
    ultimately show ?thesis using "1.prems"(2) by simp
  qed
qed

lemma generated_sets_eq:
  "generated_sets levels_needed constr = pairwise_closed constr (levels_needed div 2)"
  unfolding generated_sets_def adm_join_results_def
  by (rule adm_join_results_from_sets) (simp_all add: pairwise_closed_0)

lemma part_constraints_one_worker: "part_constraints levels_needed part_id 1 = []"
  by (simp add: part_constraints_def part_constraints_from.simps [of 0])

text \<open>
  C6, as it holds. For every even \<^verbatim>\<open>levels_needed\<close>, with one worker the constraint set
  is empty and the sets \<^verbatim>\<open>adm_join_results\<close> enumerates are exactly the non-empty subsets
  of the tables \<open>0, \<dots>, levels_needed - 1\<close>; in particular every subset of two or more
  tables is enumerated, as a list of more than one ordinal, which is what the worker
  hands to the splitter.
\<close>

theorem adm_join_results_one_worker_full_coverage:
  assumes "even levels_needed"
  shows "part_constraints levels_needed part_id 1 = []
         \<and> generated_sets levels_needed (part_constraints levels_needed part_id 1)
             = {S. S \<subseteq> {0..<levels_needed} \<and> S \<noteq> {}}
         \<and> (\<forall>S. S \<subseteq> {0..<levels_needed} \<and> 2 \<le> card S
               \<longrightarrow> (\<exists>q \<in> set (adm_join_results levels_needed
                                  (part_constraints levels_needed part_id 1)).
                      set q = S \<and> 1 < length q))"
proof -
  from assms have N: "2 * (levels_needed div 2) = levels_needed" by simp
  have "pairwise_closed [] (levels_needed div 2) = {S. S \<subseteq> {0..<levels_needed} \<and> S \<noteq> {}}"
    unfolding pairwise_closed_def N by (auto simp: pair_allowed_def)
  then have gen: "generated_sets levels_needed [] = {S. S \<subseteq> {0..<levels_needed} \<and> S \<noteq> {}}"
    by (simp only: generated_sets_eq)
  have "\<exists>q \<in> set (adm_join_results levels_needed []). set q = S \<and> 1 < length q"
    if "S \<subseteq> {0..<levels_needed}" and "2 \<le> card S" for S
  proof -
    from that(2) have "S \<noteq> {}" by auto
    with that(1) gen have "S \<in> set ` set (adm_join_results levels_needed [])"
      by (simp add: generated_sets_def)
    then obtain q where q: "q \<in> set (adm_join_results levels_needed [])" "set q = S"
      by auto
    from that(2) q(2) card_length [of q] have "1 < length q" by simp
    with q show ?thesis by blast
  qed
  with gen show ?thesis
    by (simp only: part_constraints_one_worker) blast
qed

theorem adm_join_results_one_worker_full_coverage_witness:
  "even (4::nat)
   \<and> part_constraints 4 0 1 = []
   \<and> generated_sets 4 (part_constraints 4 0 1) = {S. S \<subseteq> {0..<4} \<and> S \<noteq> {}}
   \<and> list_ex (\<lambda>q. set q = {1, 2, 3} \<and> 1 < length q) (adm_join_results 4 (part_constraints 4 0 1))"
proof -
  have e: "even (4::nat)" by simp
  have s: "{1, 2, 3} \<subseteq> {0..<4::nat} \<and> 2 \<le> card {1, 2, 3::nat}" by simp
  from adm_join_results_one_worker_full_coverage [OF e, of 0] s e
  show ?thesis unfolding list_ex_iff by blast
qed

text \<open>
  C6, as stated, claims this for every \<^verbatim>\<open>levels_needed\<close>. The loop of
  \<^verbatim>\<open>adm_join_results\<close> takes the tables in pairs and stops at \<open>2i + 1 < levels_needed\<close>, so
  with an odd number of tables the last table is in no set: for three tables the sets are
  \<open>{0}\<close>, \<open>{1}\<close> and \<open>{0, 1}\<close>, and \<open>{0, 2}\<close>, \<open>{1, 2}\<close> and \<open>{0, 1, 2}\<close> are not enumerated.
  \<^verbatim>\<open>make_rel_from_joinlist\<close> calls the search for even \<^verbatim>\<open>levels_needed\<close> only.
\<close>

theorem adm_join_results_one_worker_full_coverage_counterexample:
  "part_constraints 3 0 1 = []
   \<and> adm_join_results 3 (part_constraints 3 0 1) = [[0], [1], [0, 1]]"
  by code_simp

section \<open>Constraint partitioner: the workers cover every join order\<close>

lemma part_constraints_from_power_of_two:
  assumes "i \<le> k"
  shows "part_constraints_from i part_id (2 ^ k)
           = map (\<lambda>i. if bit part_id i then (2 * i + 1, 2 * i) else (2 * i, 2 * i + 1)) [i..<k]"
  using assms
proof (induction "k - i" arbitrary: i)
  case 0
  then have "i = k" by simp
  then show ?case by (simp add: part_constraints_from.simps [of k])
next
  case (Suc d)
  then have lt: "i < k" and le: "i + 1 \<le> k" and d: "d = k - (i + 1)" by simp_all
  from lt have shift: "push_bit i (1::nat) < 2 ^ k" by simp
  have sel: "part_id AND push_bit i 1 > 0 \<longleftrightarrow> bit part_id i"
    using and_exp_eq_0_iff_not_bit [of part_id i] by auto
  from lt have upt: "[i..<k] = i # [i + 1..<k]" by (simp add: upt_conv_Cons)
  have "part_constraints_from i part_id (2 ^ k)
          = (if bit part_id i then (2 * i + 1, 2 * i) else (2 * i, 2 * i + 1))
            # part_constraints_from (i + 1) part_id (2 ^ k)"
    by (subst part_constraints_from.simps) (simp only: shift sel Let_def if_True)
  also note Suc.hyps(1) [OF d le]
  finally show ?case by (simp only: upt list.map)
qed

lemma part_constraints_power_of_two:
  "part_constraints levels_needed part_id (2 ^ k)
     = map (\<lambda>i. if bit part_id i then (2 * i + 1, 2 * i) else (2 * i, 2 * i + 1)) [0..<k]"
  unfolding part_constraints_def by (rule part_constraints_from_power_of_two) simp

lemma choose_part_id:
  "\<exists>part_id < (2::nat) ^ k. \<forall>i < k. bit part_id i \<longleftrightarrow> B i"
proof -
  let ?p = "horner_sum of_bool (2::nat) (map B [0..<k])"
  have "?p < 2 ^ length (map B [0..<k])" by (rule horner_sum_bound)
  then have "?p < 2 ^ k" by simp
  moreover have "\<forall>i < k. bit ?p i \<longleftrightarrow> B i"
    by (simp add: bit_horner_sum_bit_iff)
  ultimately show ?thesis by blast
qed

lemma earlier_in_prefix:
  assumes "a \<in> set (takeWhile (\<lambda>x. x \<noteq> b) (joined @ u # rest))" and "b \<in> set (joined @ [u])"
  shows "a \<in> set joined"
proof (cases "b \<in> set joined")
  case True
  then have "takeWhile (\<lambda>x. x \<noteq> b) (joined @ u # rest) = takeWhile (\<lambda>x. x \<noteq> b) joined"
    by (intro takeWhile_append1 [of b]) simp_all
  with assms(1) show ?thesis by (auto dest: set_takeWhileD)
next
  case False
  with assms(2) have "b = u" by simp
  from False have "\<And>x. x \<in> set joined \<Longrightarrow> x \<noteq> b" by blast
  then have "takeWhile (\<lambda>x. x \<noteq> b) (joined @ u # rest)
               = joined @ takeWhile (\<lambda>x. x \<noteq> b) (u # rest)"
    by (rule takeWhile_append2)
  with \<open>b = u\<close> have "takeWhile (\<lambda>x. x \<noteq> b) (joined @ u # rest) = joined"
    by simp
  with assms(1) show ?thesis by simp
qed

lemma earlier_total:
  assumes "a \<noteq> b" and "a \<in> set order" and "b \<in> set order"
  shows "a \<in> set (takeWhile (\<lambda>x. x \<noteq> b) order) \<or> b \<in> set (takeWhile (\<lambda>x. x \<noteq> a) order)"
  using assms by (induction order) auto

lemma split_tried_along_order:
  assumes even: "even levels_needed" and small: "levels_needed \<le> 30"
    and dist: "distinct (joined @ u # rest)"
    and tables: "set (joined @ u # rest) = {0..<levels_needed}"
    and nonempty: "joined \<noteq> []"
    and rng: "\<forall>(a, b) \<in> set constr. a < levels_needed \<and> b < levels_needed"
    and pairs: "\<forall>(a, b) \<in> set constr. \<exists>j. (a, b) = (2 * j, 2 * j + 1) \<or> (a, b) = (2 * j + 1, 2 * j)"
    and before: "\<forall>(a, b) \<in> set constr. a \<in> set (takeWhile (\<lambda>x. x \<noteq> b) (joined @ u # rest))"
  shows "split_tried levels_needed constr joined u"
proof -
  let ?S = "set joined \<union> {u}"
  have closure: "a \<in> set joined" if "(a, b) \<in> set constr" and "b \<in> ?S" for a b
  proof -
    from that(1) before have "a \<in> set (takeWhile (\<lambda>x. x \<noteq> b) (joined @ u # rest))"
      by blast
    moreover from that(2) have "b \<in> set (joined @ [u])" by simp
    ultimately show ?thesis by (rule earlier_in_prefix)
  qed
  from dist have fresh: "u \<notin> set joined" by simp
  from tables have sub: "?S \<subseteq> {0..<levels_needed}" by auto
  from even have N: "2 * (levels_needed div 2) = levels_needed" by simp
  have allowed: "pair_allowed constr j ?S" for j
    unfolding pair_allowed_def
  proof (intro conjI notI)
    assume "2 * j \<in> ?S \<and> 2 * j + 1 \<notin> ?S \<and> 2 * j \<in> snd ` set constr"
    then obtain a where c: "(a, 2 * j) \<in> set constr" and inS: "2 * j \<in> ?S"
      and out: "2 * j + 1 \<notin> ?S" by force
    from c pairs obtain j' where "(a, 2 * j) = (2 * j', 2 * j' + 1) \<or> (a, 2 * j) = (2 * j' + 1, 2 * j')"
      by blast
    then have "(a = 2 * j' \<and> 2 * j = 2 * j' + 1) \<or> (a = 2 * j' + 1 \<and> 2 * j = 2 * j')"
      by simp
    then have "a = 2 * j + 1" by presburger
    with closure [OF c inS] out show False by simp
  next
    assume "2 * j + 1 \<in> ?S \<and> 2 * j \<notin> ?S \<and> 2 * j + 1 \<in> snd ` set constr"
    then obtain a where c: "(a, 2 * j + 1) \<in> set constr" and inS: "2 * j + 1 \<in> ?S"
      and out: "2 * j \<notin> ?S" by force
    from c pairs obtain j' where
      "(a, 2 * j + 1) = (2 * j', 2 * j' + 1) \<or> (a, 2 * j + 1) = (2 * j' + 1, 2 * j')"
      by blast
    then have "(a = 2 * j' \<and> 2 * j + 1 = 2 * j' + 1) \<or> (a = 2 * j' + 1 \<and> 2 * j + 1 = 2 * j')"
      by simp
    then have "a = 2 * j" by presburger
    with closure [OF c inS] out show False by simp
  qed
  with sub have "?S \<in> pairwise_closed constr (levels_needed div 2)"
    unfolding pairwise_closed_def N by simp
  then have "?S \<in> set ` set (adm_join_results levels_needed constr)"
    by (simp only: generated_sets_eq [symmetric] generated_sets_def)
  then obtain q where q: "q \<in> set (adm_join_results levels_needed constr)" and qS: "set q = ?S"
    by auto
  from nonempty have "0 < card (set joined)"
    by (simp add: card_gt_0_iff)
  then have "1 \<le> card (set joined)" by linarith
  with fresh have "2 \<le> card ?S" by simp
  with qS card_length [of q] have long: "1 < length q" by simp
  from sub small qS have "\<forall>num \<in> set q. num < levels_needed \<and> num < 31" by auto
  from try_splits_in_range(1) [OF this rng]
  have rhs: "right_hand_sides levels_needed q constr
               = Inr (filter (\<lambda>u. \<not> (\<exists>v \<in> set q. (u, v) \<in> set constr)) q)" .
  have "\<not> (\<exists>v \<in> set q. (u, v) \<in> set constr)"
  proof
    assume "\<exists>v \<in> set q. (u, v) \<in> set constr"
    then obtain v where "v \<in> ?S" "(u, v) \<in> set constr" using qS by auto
    from closure [OF this(2,1)] fresh show False by simp
  qed
  moreover from qS have "u \<in> set q" by simp
  ultimately have "u \<in> set (filter (\<lambda>u. \<not> (\<exists>v \<in> set q. (u, v) \<in> set constr)) q)"
    by simp
  with rhs q long qS show ?thesis
    unfolding split_tried_def list_ex_iff by (intro bexI [of _ q]) simp_all
qed

lemma order_explored_along_order:
  assumes "even levels_needed" and "levels_needed \<le> 30"
    and "distinct (joined @ rest)"
    and "set (joined @ rest) = {0..<levels_needed}"
    and "\<forall>(a, b) \<in> set constr. a < levels_needed \<and> b < levels_needed"
    and "\<forall>(a, b) \<in> set constr. \<exists>j. (a, b) = (2 * j, 2 * j + 1) \<or> (a, b) = (2 * j + 1, 2 * j)"
    and "\<forall>(a, b) \<in> set constr. a \<in> set (takeWhile (\<lambda>x. x \<noteq> b) (joined @ rest))"
  shows "order_explored levels_needed constr joined rest"
  using assms(3,4,7)
proof (induction rest arbitrary: joined)
  case Nil
  show ?case by simp
next
  case (Cons u rest)
  have step: "joined = [] \<or> split_tried levels_needed constr joined u"
  proof (cases "joined = []")
    case True
    then show ?thesis by simp
  next
    case False
    from split_tried_along_order [OF assms(1,2) Cons.prems(1,2) False assms(5,6) Cons.prems(3)]
    show ?thesis by simp
  qed
  from Cons.prems have "distinct ((joined @ [u]) @ rest)"
    and "set ((joined @ [u]) @ rest) = {0..<levels_needed}"
    and "\<forall>(a, b) \<in> set constr. a \<in> set (takeWhile (\<lambda>x. x \<noteq> b) ((joined @ [u]) @ rest))"
    by simp_all
  from Cons.IH [OF this] step show ?case by simp
qed

text \<open>
  C2, as it holds. For an even number of tables \<^verbatim>\<open>levels_needed\<close> (at most 30, so that
  every bitmap fits the \<^verbatim>\<open>int\<close>), a worker count that is a power of two, \<open>2 ^ k\<close>, whose
  \<open>k\<close> constrained pairs lie within the tables (\<open>2k \<le> levels_needed\<close>), and every order of
  joining all the tables: some partition id below the worker count has a constraint set
  whose worker explores that order, that is, generates every set the order passes
  through and tries, on each, the split with the table joined last on the right. With
  \<open>k = 0\<close> this is the single unconstrained worker, which explores every order.
\<close>

theorem every_join_order_explored_by_some_worker:
  assumes "even levels_needed" and "levels_needed \<le> 30" and "2 * k \<le> levels_needed"
    and "distinct order" and "set order = {0..<levels_needed}"
  shows "explored_by_some_worker levels_needed (2 ^ k) order"
proof -
  from choose_part_id [of k "\<lambda>i. 2 * i + 1 \<in> set (takeWhile (\<lambda>x. x \<noteq> 2 * i) order)"]
  obtain part_id :: nat where less: "part_id < 2 ^ k"
    and bits: "\<And>i. i < k \<Longrightarrow>
                 bit part_id i \<longleftrightarrow> 2 * i + 1 \<in> set (takeWhile (\<lambda>x. x \<noteq> 2 * i) order)"
    by blast
  let ?constr = "part_constraints levels_needed part_id (2 ^ k)"
  have member: "\<exists>i < k. (a, b) = (if bit part_id i then (2 * i + 1, 2 * i) else (2 * i, 2 * i + 1))"
    if "(a, b) \<in> set ?constr" for a b
    using that unfolding part_constraints_power_of_two by auto
  have rng: "\<forall>(a, b) \<in> set ?constr. a < levels_needed \<and> b < levels_needed"
  proof (intro ballI, clarify)
    fix a b assume "(a, b) \<in> set ?constr"
    from member [OF this] obtain i where "i < k"
      "(a, b) = (if bit part_id i then (2 * i + 1, 2 * i) else (2 * i, 2 * i + 1))" by blast
    with assms(3) show "a < levels_needed \<and> b < levels_needed"
      by (auto split: if_splits)
  qed
  have pairs: "\<forall>(a, b) \<in> set ?constr.
                 \<exists>j. (a, b) = (2 * j, 2 * j + 1) \<or> (a, b) = (2 * j + 1, 2 * j)"
  proof (intro ballI, clarify)
    fix a b assume "(a, b) \<in> set ?constr"
    from member [OF this] obtain i where
      "(a, b) = (if bit part_id i then (2 * i + 1, 2 * i) else (2 * i, 2 * i + 1))" by blast
    then have "(a, b) = (2 * i, 2 * i + 1) \<or> (a, b) = (2 * i + 1, 2 * i)"
      by (simp split: if_splits)
    then show "\<exists>j. (a, b) = (2 * j, 2 * j + 1) \<or> (a, b) = (2 * j + 1, 2 * j)" ..
  qed
  have before: "\<forall>(a, b) \<in> set ?constr. a \<in> set (takeWhile (\<lambda>x. x \<noteq> b) ([] @ order))"
  proof (intro ballI, clarify)
    fix a b assume "(a, b) \<in> set ?constr"
    from member [OF this] obtain i where i: "i < k"
      and ab: "(a, b) = (if bit part_id i then (2 * i + 1, 2 * i) else (2 * i, 2 * i + 1))"
      by blast
    show "a \<in> set (takeWhile (\<lambda>x. x \<noteq> b) ([] @ order))"
    proof (cases "bit part_id i")
      case True
      with ab bits [OF i] show ?thesis by simp
    next
      case False
      with bits [OF i] have no: "2 * i + 1 \<notin> set (takeWhile (\<lambda>x. x \<noteq> 2 * i) order)"
        by simp
      from i assms(3,5) have "2 * i \<in> set order" "2 * i + 1 \<in> set order" by auto
      with earlier_total [of "2 * i" "2 * i + 1" order] no
      have "2 * i \<in> set (takeWhile (\<lambda>x. x \<noteq> 2 * i + 1) order)" by auto
      with False ab show ?thesis by simp
    qed
  qed
  from assms(4,5) have "distinct ([] @ order)" "set ([] @ order) = {0..<levels_needed}"
    by simp_all
  from order_explored_along_order [OF assms(1,2) this rng pairs before]
  have "order_explored levels_needed ?constr [] order" .
  with less show ?thesis
    unfolding explored_by_some_worker_def list_ex_iff by (intro bexI [of _ part_id]) simp_all
qed

theorem every_join_order_explored_by_some_worker_witness:
  "even (4::nat) \<and> (4::nat) \<le> 30 \<and> 2 * 2 \<le> (4::nat)
   \<and> distinct [1, 0, 3, 2 :: nat] \<and> set [1, 0, 3, 2] = {0..<4::nat}
   \<and> explored_by_some_worker 4 (2 ^ 2) [1, 0, 3, 2]"
proof -
  have h: "even (4::nat)" "(4::nat) \<le> 30" "2 * 2 \<le> (4::nat)" "distinct [1, 0, 3, 2 :: nat]"
    by simp_all
  have s: "set [1, 0, 3, 2] = {0..<4::nat}"
    by code_simp
  from every_join_order_explored_by_some_worker [OF h s] h s show ?thesis by blast
qed

text \<open>
  C2, as stated, claims the cover for every worker count. \<^verbatim>\<open>part_constraints\<close> derives
  one pair per bit of the largest partition id a power of two would give, and with three
  workers the partition id 3, which orients both pairs the other way, does not exist:
  the order 1, 0, 3, 2 of four tables, which the single unconstrained worker explores, is
  explored by none of the three workers.
\<close>

theorem every_join_order_explored_by_some_worker_counterexample:
  "explored_by_some_worker 4 1 [1, 0, 3, 2] \<and> \<not> explored_by_some_worker 4 3 [1, 0, 3, 2]"
  by code_simp

text \<open>
  The second half of C2, equal winning cost with one and with four workers, depends on
  the orchestrator and fails with it (see C1): on six tables with \<open>order_planner\<close> the
  single worker returns cost 0 and the search with four workers returns cost 1.
\<close>

lemma one_and_four_workers_differ:
  "map_sum id total_cost
     (parallel_join_search order_planner 6
        [base_rel 0, base_rel 1, base_rel 2, base_rel 3, base_rel 4, base_rel 5] 1 2) = Inr 0
   \<and> map_sum id total_cost
     (parallel_join_search order_planner 6
        [base_rel 0, base_rel 1, base_rel 2, base_rel 3, base_rel 4, base_rel 5] 4 2) = Inr 1"
  by code_simp

end
